theory Spec2Isabelle
  imports Main "HOL-Library.Monad_Syntax" "HOL-Library.Word"
begin

section \<open>Array primitives used by \<open>numpy/lib/arraysetops.py\<close>\<close>

text \<open>
  One-dimensional arrays are lists. The element type is any linear order (the module is
  meant for integer arrays). An operation of the array library that can raise
  \<open>IndexError\<close> returns \<open>None\<close> when it does.
\<close>

text \<open>\<open>a[1:] != a[:-1]\<close> and \<open>a[1:] == a[:-1]\<close>: elementwise comparison of neighbours.\<close>

definition adj_ne :: "'a list \<Rightarrow> bool list" where
  "adj_ne a = map2 (\<lambda>x y. x \<noteq> y) (tl a) (butlast a)"

definition adj_eq :: "'a list \<Rightarrow> bool list" where
  "adj_eq a = map2 (\<lambda>x y. x = y) (tl a) (butlast a)"

text \<open>\<open>a[idx]\<close> with an integer index array: raises when an index is out of range.\<close>

definition take_idx :: "'a list \<Rightarrow> nat list \<Rightarrow> 'a list option" where
  "take_idx a idx =
     (if list_all (\<lambda>i. i < length a) idx then Some (map ((!) a) idx) else None)"

text \<open>\<open>np.where(m)[0]\<close> for a boolean array: the positions holding \<open>True\<close>.\<close>

definition nonzero :: "bool list \<Rightarrow> nat list" where
  "nonzero m = filter ((!) m) [0..<length m]"

text \<open>
  \<open>a[mask]\<close> with a boolean array. This version of the library reads a boolean index as
  the positions of its \<open>True\<close> entries, so the mask may be shorter than \<open>a\<close>
  (as it is in \<open>intersect1d\<close>).
\<close>

definition mask_index :: "'a list \<Rightarrow> bool list \<Rightarrow> 'a list option" where
  "mask_index a msk = take_idx a (nonzero msk)"

text \<open>
  \<open>a[idx] = vals\<close>: the right-hand side is already evaluated; the entries are written one
  after the other.
\<close>

definition put :: "'a list \<Rightarrow> nat list \<Rightarrow> 'a list \<Rightarrow> 'a list option" where
  "put a idx vals =
     (if list_all (\<lambda>i. i < length a) idx
      then Some (fold (\<lambda>(i, v) p. p[i := v]) (zip idx vals) a) else None)"

text \<open>
  \<open>a.argsort(kind='mergesort')\<close>: the permutation of a stable sort. A stable sort has one
  possible result, here computed by the library's stable insertion sort on the pairs
  (value, position).
\<close>

definition argsort :: "'a::linorder list \<Rightarrow> nat list" where
  "argsort a = map snd (sort_key fst (zip a [0..<length a]))"

text \<open>
  \<open>a.argsort()\<close> with the default kind is not stable: among equal values any order may
  come out. \<open>is_argsort perm a\<close> says that \<open>perm\<close> is one of its possible results, a
  permutation of the positions that puts \<open>a\<close> in ascending order.
\<close>

definition is_argsort :: "nat list \<Rightarrow> 'a::linorder list \<Rightarrow> bool" where
  "is_argsort perm a \<longleftrightarrow>
     sort perm = [0..<length a] \<and> sorted (map ((!) a) perm)"


section \<open>The set operations\<close>

subsection \<open>\<open>unique1d\<close>\<close>

text \<open>The dtype of an index result: \<open>np.empty(0, np.bool)\<close> against \<open>perm[flag]\<close>.\<close>

datatype index_array = BoolArray "bool list" | IntArray "nat list"

text \<open>\<open>unique1d(ar1)\<close>, that is \<open>return_index=False\<close>.\<close>

definition unique1d :: "'a::linorder list \<Rightarrow> 'a list option" where
  "unique1d ar1 =
     (if length ar1 = 0 then Some ar1
      else do {
        let ar = sort ar1;
        let flag = [True] @ adj_ne ar;
        mask_index ar flag
      })"

text \<open>
  \<open>unique1d(ar1, return_index=True)\<close>; \<open>perm\<close> is what \<open>ar.argsort()\<close> returned.
\<close>

definition unique1d_index ::
  "nat list \<Rightarrow> 'a::linorder list \<Rightarrow> (index_array \<times> 'a list) option" where
  "unique1d_index perm ar =
     (if length ar = 0 then Some (BoolArray [], ar)
      else do {
        aux \<leftarrow> take_idx ar perm;
        let flag = [True] @ adj_ne aux;
        idx \<leftarrow> mask_index perm flag;
        vals \<leftarrow> mask_index aux flag;
        Some (IntArray idx, vals)
      })"

subsection \<open>\<open>intersect1d\<close> and \<open>intersect1d_nu\<close>\<close>

definition intersect1d :: "'a::linorder list \<Rightarrow> 'a list \<Rightarrow> 'a list option" where
  "intersect1d ar1 ar2 =
     (let aux = sort (ar1 @ ar2) in mask_index aux (adj_eq aux))"

definition intersect1d_nu :: "'a::linorder list \<Rightarrow> 'a list \<Rightarrow> 'a list option" where
  "intersect1d_nu ar1 ar2 = do {
     u1 \<leftarrow> unique1d ar1;
     u2 \<leftarrow> unique1d ar2;
     let aux = sort (u1 @ u2);
     mask_index aux (adj_eq aux)
   }"

subsection \<open>\<open>setxor1d\<close>\<close>

text \<open>The array \<open>flag\<close> of \<open>setxor1d\<close>, for the sorted concatenation \<open>aux\<close>.\<close>

definition setxor1d_flag :: "'a list \<Rightarrow> bool list" where
  "setxor1d_flag aux = [True] @ adj_ne aux @ [True]"

definition setxor1d :: "'a::linorder list \<Rightarrow> 'a list \<Rightarrow> 'a list option" where
  "setxor1d ar1 ar2 =
     (let aux = ar1 @ ar2 in
      if length aux = 0 then Some aux
      else do {
        let aux = sort aux;
        let flag = setxor1d_flag aux;
        let flag2 = adj_eq flag;
        mask_index aux flag2
      })"

subsection \<open>\<open>setmember1d\<close>\<close>

text \<open>
  The origin tags are \<open>int8\<close>; \<open>flag * aux2\<close> multiplies a boolean by a tag, and
  \<open>np.where\<close> keeps the positions where the product is not zero. The two arrays have the
  same length unless both inputs are empty; then \<open>flag\<close> has one entry, \<open>aux2\<close> has none,
  and their product is the empty array.
\<close>

definition setmember1d :: "'a::linorder list \<Rightarrow> 'a list \<Rightarrow> bool list option" where
  "setmember1d ar1 ar2 = do {
     let ar = ar1 @ ar2;
     let b1 = replicate (length ar1) (0 :: 8 word);
     let b2 = replicate (length ar2) (1 :: 8 word);
     let tt = b1 @ b2;
     let perm = argsort ar;
     aux \<leftarrow> take_idx ar perm;
     aux2 \<leftarrow> take_idx tt perm;
     let flag = adj_eq aux @ [False];
     let ii = nonzero (map2 (\<lambda>f t. of_bool f * t \<noteq> 0) flag aux2);
     aux' \<leftarrow> take_idx perm (map Suc ii);
     vals \<leftarrow> take_idx perm ii;
     perm1 \<leftarrow> put perm (map Suc ii) vals;
     perm2 \<leftarrow> put perm1 ii aux';
     let indx = take (length ar1) (argsort perm2);
     take_idx flag indx
   }"

text \<open>
  The array \<open>ii\<close> of \<open>setmember1d\<close>, the positions whose entries are exchanged with
  their successors: the statements of \<open>setmember1d\<close> up to \<open>np.where\<close>.
\<close>

definition setmember1d_ii :: "'a::linorder list \<Rightarrow> 'a list \<Rightarrow> nat list option" where
  "setmember1d_ii ar1 ar2 = do {
     let ar = ar1 @ ar2;
     let b1 = replicate (length ar1) (0 :: 8 word);
     let b2 = replicate (length ar2) (1 :: 8 word);
     let tt = b1 @ b2;
     let perm = argsort ar;
     aux \<leftarrow> take_idx ar perm;
     aux2 \<leftarrow> take_idx tt perm;
     let flag = adj_eq aux @ [False];
     Some (nonzero (map2 (\<lambda>f t. of_bool f * t \<noteq> 0) flag aux2))
   }"

text \<open>
  The array \<open>perm\<close> of \<open>setmember1d\<close> after the two assignments
  \<open>perm[ii+1] = perm[ii]\<close> and \<open>perm[ii] = aux\<close>: the statements of \<open>setmember1d\<close> up to
  the second assignment.
\<close>

definition setmember1d_perm :: "'a::linorder list \<Rightarrow> 'a list \<Rightarrow> nat list option" where
  "setmember1d_perm ar1 ar2 = do {
     let ar = ar1 @ ar2;
     let b1 = replicate (length ar1) (0 :: 8 word);
     let b2 = replicate (length ar2) (1 :: 8 word);
     let tt = b1 @ b2;
     let perm = argsort ar;
     aux \<leftarrow> take_idx ar perm;
     aux2 \<leftarrow> take_idx tt perm;
     let flag = adj_eq aux @ [False];
     let ii = nonzero (map2 (\<lambda>f t. of_bool f * t \<noteq> 0) flag aux2);
     aux' \<leftarrow> take_idx perm (map Suc ii);
     vals \<leftarrow> take_idx perm ii;
     perm1 \<leftarrow> put perm (map Suc ii) vals;
     perm2 \<leftarrow> put perm1 ii aux';
     Some perm2
   }"

subsection \<open>\<open>union1d\<close> and \<open>setdiff1d\<close>\<close>

definition union1d :: "'a::linorder list \<Rightarrow> 'a list \<Rightarrow> 'a list option" where
  "union1d ar1 ar2 = unique1d (ar1 @ ar2)"

text \<open>
  \<open>setdiff1d\<close> returns the empty mask itself when the mask is empty; as a list of
  elements that is the empty list.
\<close>

definition setdiff1d :: "'a::linorder list \<Rightarrow> 'a list \<Rightarrow> 'a list option" where
  "setdiff1d ar1 ar2 = do {
     aux \<leftarrow> setmember1d ar1 ar2;
     if length aux = 0 then Some []
     else mask_index ar1 (map (\<lambda>m. m = False) aux)
   }"


section \<open>Auxiliary functions of the proofs\<close>

text \<open>Selection by a boolean mask, as a filter over the paired lists.\<close>

definition compress :: "'a list \<Rightarrow> bool list \<Rightarrow> 'a list" where
  "compress a msk = map fst (filter snd (zip a msk))"

text \<open>All but the last element of every run of equal neighbours.\<close>

fun dups :: "'a list \<Rightarrow> 'a list" where
  "dups (x # y # zs) = (if y = x then [x] else []) @ dups (y # zs)"
| "dups _ = []"

text \<open>The entries of an index result read as positions (a boolean counts as 0 or 1).\<close>

definition index_list :: "index_array \<Rightarrow> nat list" where
  "index_list ia = (case ia of BoolArray bs \<Rightarrow> map of_bool bs | IntArray ns \<Rightarrow> ns)"


text \<open>
  The order of a stable sort on the pairs (value, position): by value, and by position
  among equal values.
\<close>

definition lexlt :: "'a::linorder \<times> nat \<Rightarrow> 'a \<times> nat \<Rightarrow> bool" where
  "lexlt p q \<longleftrightarrow> fst p < fst q \<or> (fst p = fst q \<and> snd p < snd q)"

text \<open>The pairs (value, position) of an array in the order of the stable sort.\<close>

definition ssort :: "'a::linorder list \<Rightarrow> ('a \<times> nat) list" where
  "ssort c = sort_key fst (zip c [0..<length c])"

text \<open>The position of the first occurrence of a value in a list.\<close>

primrec first_index :: "'a list \<Rightarrow> 'a \<Rightarrow> nat" where
  "first_index [] v = 0"
| "first_index (x # xs) v = (if x = v then 0 else Suc (first_index xs v))"

text \<open>
  In the stable sort of \<open>c\<close>, the element at sorted position \<open>j\<close> is followed by an
  equal element.
\<close>

definition succ_eq :: "'a::linorder list \<Rightarrow> nat \<Rightarrow> bool" where
  "succ_eq c j \<longleftrightarrow> Suc j < length c \<and> c ! (argsort c ! Suc j) = c ! (argsort c ! j)"


text \<open>
  The elements \<open>setxor1d\<close> keeps, by recursion over the sorted array; \<open>f\<close> is the flag
  of the first element.
\<close>

fun xorf :: "bool \<Rightarrow> 'a list \<Rightarrow> 'a list" where
  "xorf f [] = []"
| "xorf f [x] = (if f then [x] else [])"
| "xorf f (x # y # zs) = (if (y \<noteq> x) = f then [x] else []) @ xorf (y \<noteq> x) (y # zs)"


section \<open>The algorithms in the words of the specification\<close>

text \<open>
  \<open>setxor1d\<close>: for the sorted concatenation \<open>m\<close>, a flag sequence \<open>f\<close> with
  \<open>f[0]\<close> and \<open>f[last]\<close> true and \<open>f[i] = (m[i] != m[i-1])\<close> in between, of length
  \<open>len(m) + 1\<close>; \<open>g[i] = (f[i] == f[i+1])\<close> for each adjacent pair of \<open>f\<close>; the output
  is every \<open>m[i]\<close> where \<open>g[i]\<close> is true.
\<close>

definition spec_f :: "'a list \<Rightarrow> bool list" where
  "spec_f m = map (\<lambda>i. i = 0 \<or> i = length m \<or> m ! i \<noteq> m ! (i - 1)) [0..<length m + 1]"

definition spec_g :: "bool list \<Rightarrow> bool list" where
  "spec_g f = map (\<lambda>i. f ! i = f ! (i + 1)) [0..<length f - 1]"

definition setxor1d_spec :: "'a::linorder list \<Rightarrow> 'a list \<Rightarrow> 'a list" where
  "setxor1d_spec a b =
     (let m = sort (a @ b); f = spec_f m; g = spec_g f
      in map ((!) m) (filter ((!) g) [0..<length g]))"


text \<open>
  \<open>setmember1d\<close>: the elements of \<open>a\<close> get the origin tag 0 and those of \<open>b\<close> the tag
  1; the concatenation is sorted by a stable sort; position \<open>i\<close> of the sorted order
  is flagged when its element equals the next one (the last position never is); for
  every flagged position whose tag is \<open>t\<close> the entries \<open>i\<close> and \<open>i + 1\<close> of the sort
  permutation are swapped; the permutation is inverted; the first \<open>len(a)\<close> entries of
  the inverse index the flags. The specification takes \<open>t = 0\<close>.
\<close>

definition spec_flagged :: "'a::linorder list \<Rightarrow> nat \<Rightarrow> bool" where
  "spec_flagged c i \<longleftrightarrow>
     (let srt = map ((!) c) (argsort c) in Suc i < length srt \<and> srt ! i = srt ! Suc i)"

definition spec_swaps :: "nat \<Rightarrow> 'a::linorder list \<Rightarrow> 'a list \<Rightarrow> nat list" where
  "spec_swaps t a b =
     (let c = a @ b;
          tag = replicate (length a) 0 @ replicate (length b) (1 :: nat);
          perm = argsort c
      in filter (\<lambda>i. spec_flagged c i \<and> tag ! (perm ! i) = t) [0..<length c])"

definition swap_at :: "nat \<Rightarrow> nat list \<Rightarrow> nat list" where
  "swap_at i p = p[i := p ! Suc i, Suc i := p ! i]"

definition spec_perm :: "nat \<Rightarrow> 'a::linorder list \<Rightarrow> 'a list \<Rightarrow> nat list" where
  "spec_perm t a b = fold swap_at (spec_swaps t a b) (argsort (a @ b))"

definition invert_perm :: "nat list \<Rightarrow> nat list" where
  "invert_perm p = map (first_index p) [0..<length p]"

definition setmember1d_spec :: "nat \<Rightarrow> 'a::linorder list \<Rightarrow> 'a list \<Rightarrow> bool list" where
  "setmember1d_spec t a b =
     map (spec_flagged (a @ b)) (take (length a) (invert_perm (spec_perm t a b)))"


section \<open>Properties of the primitives\<close>

lemma nonzero_Nil: "nonzero [] = []"
  by (simp add: nonzero_def)

lemma nonzero_Cons: "nonzero (b # bs) = (if b then [0] else []) @ map Suc (nonzero bs)"
proof -
  have "[0..<Suc (length bs)] = 0 # map Suc [0..<length bs]"
    by (simp add: upt_conv_Cons map_Suc_upt del: upt_Suc)
  then show ?thesis
    by (simp add: nonzero_def filter_map o_def del: upt_Suc)
qed

lemma take_idx_Nil: "take_idx a [] = Some []"
  by (simp add: take_idx_def)

lemma take_idx_Some: "list_all (\<lambda>i. i < length a) idx \<Longrightarrow> take_idx a idx = Some (map ((!) a) idx)"
  by (simp add: take_idx_def)

lemma compress_Nil: "compress a [] = []" "compress [] msk = []"
  by (simp_all add: compress_def)

lemma compress_Cons: "compress (x # xs) (b # bs) = (if b then [x] else []) @ compress xs bs"
  by (simp add: compress_def)

lemma mask_index_compress:
  "length msk \<le> length a \<Longrightarrow> mask_index a msk = Some (compress a msk)"
proof (induction msk arbitrary: a)
  case Nil
  then show ?case by (simp add: mask_index_def nonzero_Nil take_idx_Nil compress_Nil)
next
  case (Cons b bs)
  then obtain x xs where a: "a = x # xs" by (cases a) auto
  with Cons.prems have "length bs \<le> length xs" by simp
  from Cons.IH [OF this] have ih: "take_idx xs (nonzero bs) = Some (compress xs bs)"
    by (simp add: mask_index_def)
  then have all: "list_all (\<lambda>i. i < length xs) (nonzero bs)"
    and eq: "map ((!) xs) (nonzero bs) = compress xs bs"
    by (auto simp: take_idx_def split: if_splits)
  show ?case
    using all eq
    by (simp add: a mask_index_def nonzero_Cons take_idx_def compress_Cons list_all_iff o_def)
qed

lemma adj_ne_simps:
  "adj_ne [] = []" "adj_ne [x] = []" "adj_ne (x # y # zs) = (y \<noteq> x) # adj_ne (y # zs)"
  by (simp_all add: adj_ne_def)

lemma adj_eq_simps:
  "adj_eq [] = []" "adj_eq [x] = []" "adj_eq (x # y # zs) = (y = x) # adj_eq (y # zs)"
  by (simp_all add: adj_eq_def)

lemma length_adj_ne: "length (adj_ne a) = length a - 1"
  by (simp add: adj_ne_def)

lemma length_adj_eq: "length (adj_eq a) = length a - 1"
  by (simp add: adj_eq_def)


section \<open>\<open>unique1d\<close>\<close>

lemma compress_flag_ne:
  "compress (x # xs) (f # adj_ne (x # xs)) =
     (if f then remdups_adj (x # xs) else tl (remdups_adj (x # xs)))"
proof (induction xs arbitrary: x f)
  case Nil
  then show ?case by (simp add: adj_ne_simps compress_Cons compress_Nil)
next
  case (Cons y zs)
  obtain r where r: "remdups_adj (y # zs) = y # r"
    by (metis remdups_adj_Cons_alt list.collapse remdups_adj_Nil_iff list.distinct(1) hd_remdups_adj list.sel(1))
  have "compress (x # y # zs) (f # adj_ne (x # y # zs)) =
        (if f then [x] else []) @ compress (y # zs) ((y \<noteq> x) # adj_ne (y # zs))"
    by (simp only: adj_ne_simps compress_Cons)
  also have "\<dots> = (if f then [x] else []) @ (if y \<noteq> x then y # r else r)"
    by (simp only: Cons.IH r list.sel)
  finally show ?case
    using r by (cases "y = x") simp_all
qed

lemma strict_sorted_remdups_adj: "sorted xs \<Longrightarrow> sorted_wrt (<) (remdups_adj xs)"
  by (induction xs rule: remdups_adj.induct) (auto split: if_splits)

lemma compress_map: "compress (map f xs) msk = map f (compress xs msk)"
  by (induction xs arbitrary: msk) (case_tac [2] msk, simp_all add: compress_Nil compress_Cons)

lemma unique1d_eq: "unique1d s = Some (remdups_adj (sort s))"
proof (cases s)
  case Nil
  then show ?thesis by (simp add: unique1d_def)
next
  case (Cons x xs)
  then obtain y ys where srt: "sort s = y # ys"
    by (cases "sort s") (auto dest: arg_cong [where f = length])
  have len: "length ([True] @ adj_ne (sort s)) \<le> length (sort s)"
    by (simp add: length_adj_ne srt)
  have "compress (sort s) ([True] @ adj_ne (sort s)) = remdups_adj (sort s)"
    using compress_flag_ne [of y ys True] by (simp add: srt)
  with mask_index_compress [OF len]
  have "mask_index (sort s) ([True] @ adj_ne (sort s)) = Some (remdups_adj (sort s))"
    by simp
  moreover have "length s \<noteq> 0" using Cons by simp
  ultimately show ?thesis
    by (simp only: unique1d_def Let_def bind.bind_lunit if_False)
qed

text \<open>
  Claim C5. For every sequence \<open>s\<close>, \<open>unique1d\<close> (without indices) returns a result
  \<open>u\<close>; applying \<open>unique1d\<close> to \<open>u\<close> returns \<open>u\<close> again; \<open>u\<close> is strictly ascending,
  and no two neighbours of \<open>u\<close> are equal.
\<close>

theorem unique1d_idem_strict:
  "\<exists>u. unique1d s = Some u \<and> unique1d u = Some u \<and> sorted_wrt (<) u
        \<and> (\<forall>i. Suc i < length u \<longrightarrow> u ! i \<noteq> u ! Suc i)"
proof -
  let ?u = "remdups_adj (sort s)"
  have ss: "sorted_wrt (<) ?u" by (simp add: strict_sorted_remdups_adj)
  then have sd: "sorted ?u" "distinct ?u" by (simp_all add: strict_sorted_iff)
  have "unique1d ?u = Some ?u"
    by (simp only: unique1d_eq sorted_sort_id [OF sd(1)] remdups_adj_distinct [OF sd(2)])
  moreover have "\<forall>i. Suc i < length ?u \<longrightarrow> ?u ! i \<noteq> ?u ! Suc i"
    using sd(2) by (auto simp: distinct_conv_nth)
  ultimately show ?thesis using ss unique1d_eq by blast
qed

theorem unique1d_idem_strict_witness:
  "\<exists>u. unique1d [3, 1, 3, 2 :: int] = Some u \<and> unique1d u = Some u \<and> sorted_wrt (<) u
       \<and> Suc 0 < length u \<and> u ! 0 \<noteq> u ! Suc 0"
proof -
  from unique1d_idem_strict [of "[3, 1, 3, 2 :: int]"]
  obtain u where u: "unique1d [3, 1, 3, 2 :: int] = Some u" "unique1d u = Some u"
      "sorted_wrt (<) u" "\<forall>i. Suc i < length u \<longrightarrow> u ! i \<noteq> u ! Suc i"
    by blast
  have "unique1d [3, 1, 3, 2 :: int] = Some [1, 2, 3]" by code_simp
  with u(1) have "Suc 0 < length u" by auto
  with u show ?thesis by blast
qed

lemma set_compress_subset: "set (compress xs msk) \<subseteq> set xs"
  by (auto simp: compress_def dest: set_zip_leftD)

lemma is_argsort_perm:
  assumes "is_argsort perm s"
  shows "length perm = length s" "set perm = {0..<length s}"
proof -
  from assms have eq: "sort perm = [0..<length s]" by (simp add: is_argsort_def)
  show "length perm = length s"
    using arg_cong [OF eq, of length] by simp
  show "set perm = {0..<length s}"
    using arg_cong [OF eq, of set] by simp
qed

lemma unique1d_index_eq:
  assumes "is_argsort perm s" "s \<noteq> []"
  shows "unique1d_index perm s =
           Some (IntArray (compress perm ([True] @ adj_ne (map ((!) s) perm))),
                 remdups_adj (map ((!) s) perm))"
    and "remdups_adj (map ((!) s) perm) =
           map ((!) s) (compress perm ([True] @ adj_ne (map ((!) s) perm)))"
proof -
  let ?aux = "map ((!) s) perm"
  let ?flag = "[True] @ adj_ne ?aux"
  note p = is_argsort_perm [OF assms(1)]
  have "list_all (\<lambda>i. i < length s) perm"
    using p(2) by (simp add: list_all_iff)
  then have aux: "take_idx s perm = Some ?aux" by (rule take_idx_Some)
  from assms(2) p(1) obtain y ys where ys: "?aux = y # ys"
    by (cases ?aux) auto
  have len: "length ?flag \<le> length perm" "length ?flag \<le> length ?aux"
    using assms(2) p(1) by (simp_all add: length_adj_ne)
  have vals: "compress ?aux ?flag = remdups_adj ?aux"
    using compress_flag_ne [of y ys True] by (simp add: ys)
  have "length s \<noteq> 0" using assms(2) by simp
  then show "unique1d_index perm s = Some (IntArray (compress perm ?flag), remdups_adj ?aux)"
    using mask_index_compress [OF len(1)] mask_index_compress [OF len(2)]
    by (simp only: unique1d_index_def aux Let_def bind.bind_lunit if_False vals)
  show "remdups_adj ?aux = map ((!) s) (compress perm ?flag)"
    by (simp only: compress_map flip: vals)
qed

text \<open>
  Claim C6. For every sequence \<open>s\<close> and every permutation \<open>perm\<close> that \<open>s.argsort()\<close> may
  return, \<open>unique1d\<close> with \<open>return_index=True\<close> returns a pair of an index array and a
  value array of the same length; every index is a position of \<open>s\<close>, the value at
  \<open>i\<close> is the element of \<open>s\<close> at the \<open>i\<close>-th index, and the values are strictly
  ascending (sorted and distinct).
\<close>

theorem unique1d_index_provenance:
  assumes "is_argsort perm s"
  shows "\<exists>ia vals. unique1d_index perm s = Some (ia, vals)
           \<and> length (index_list ia) = length vals
           \<and> (\<forall>i < length vals. index_list ia ! i < length s
                                \<and> vals ! i = s ! (index_list ia ! i))
           \<and> sorted_wrt (<) vals"
proof (cases "s = []")
  case True
  then show ?thesis by (simp add: unique1d_index_def index_list_def)
next
  case False
  let ?aux = "map ((!) s) perm"
  let ?idx = "compress perm ([True] @ adj_ne ?aux)"
  note e = unique1d_index_eq [OF assms False]
  have "sorted ?aux" using assms by (simp add: is_argsort_def)
  then have s: "sorted_wrt (<) (remdups_adj ?aux)" by (rule strict_sorted_remdups_adj)
  have l: "length ?idx = length (remdups_adj ?aux)"
    using arg_cong [OF e(2), of length] by simp
  have b: "\<forall>i < length ?idx. ?idx ! i < length s"
    using set_compress_subset [of perm] is_argsort_perm(2) [OF assms]
    by (metis atLeastLessThan_iff nth_mem subsetD)
  have v: "\<forall>i < length ?idx. remdups_adj ?aux ! i = s ! (?idx ! i)"
    by (simp add: e(2))
  show ?thesis
    using e(1) s l b v by (simp add: index_list_def)
qed

theorem unique1d_index_provenance_witness:
  "is_argsort [1, 4, 0, 3, 2] [3 :: int, 1, 5, 3, 1]
   \<and> (\<exists>ia vals. unique1d_index [1, 4, 0, 3, 2] [3 :: int, 1, 5, 3, 1] = Some (ia, vals)
         \<and> length (index_list ia) = length vals
         \<and> 0 < length vals
         \<and> index_list ia ! 0 < length [3 :: int, 1, 5, 3, 1]
         \<and> vals ! 0 = [3, 1, 5, 3, 1] ! (index_list ia ! 0)
         \<and> sorted_wrt (<) vals)"
proof -
  have h: "is_argsort [1, 4, 0, 3, 2] [3 :: int, 1, 5, 3, 1]"
    by (simp add: is_argsort_def)
  from unique1d_index_provenance [OF h]
  obtain ia vals where r:
      "unique1d_index [1, 4, 0, 3, 2] [3 :: int, 1, 5, 3, 1] = Some (ia, vals)"
      "length (index_list ia) = length vals"
      "\<forall>i < length vals. index_list ia ! i < length [3 :: int, 1, 5, 3, 1]
          \<and> vals ! i = [3, 1, 5, 3, 1] ! (index_list ia ! i)"
      "sorted_wrt (<) vals"
    by blast
  have "unique1d_index [1, 4, 0, 3, 2] [3 :: int, 1, 5, 3, 1]
          = Some (IntArray [1, 0, 2], [1, 3, 5])"
    by code_simp
  with r(1) have "0 < length vals" by auto
  with h r show ?thesis by blast
qed

text \<open>
  Claim C10. \<open>unique1d\<close> of the empty input returns the empty result. With
  \<open>return_index=True\<close> the empty input gives a pair of an empty boolean-typed index
  array and the empty value array, whereas a non-empty input gives an integer-typed
  index array.
\<close>

theorem unique1d_empty:
  "unique1d ([] :: 'a::linorder list) = Some []
   \<and> unique1d_index perm0 ([] :: 'a list) = Some (BoolArray [], [])
   \<and> (is_argsort perm s \<and> s \<noteq> [] \<longrightarrow>
        (\<exists>idx vals. unique1d_index perm (s :: 'a list) = Some (IntArray idx, vals)))"
  using unique1d_index_eq(1) [of perm s]
  by (simp add: unique1d_def unique1d_index_def)

theorem unique1d_empty_witness:
  "unique1d ([] :: int list) = Some []
   \<and> unique1d_index [] ([] :: int list) = Some (BoolArray [], [])
   \<and> is_argsort [1, 0] [2 :: int, 1] \<and> [2 :: int, 1] \<noteq> []
   \<and> (\<exists>idx vals. unique1d_index [1, 0] [2 :: int, 1] = Some (IntArray idx, vals))"
proof -
  have h: "is_argsort [1, 0] [2 :: int, 1]" by (simp add: is_argsort_def)
  with unique1d_empty [of "[]" "[1, 0]" "[2 :: int, 1]"] show ?thesis by simp
qed


section \<open>\<open>intersect1d\<close>\<close>

lemma compress_adj_eq: "compress xs (adj_eq xs) = dups xs"
  by (induction xs rule: dups.induct) (simp_all add: adj_eq_simps compress_Cons compress_Nil)

lemma set_dups_subset: "set (dups xs) \<subseteq> set xs"
  by (induction xs rule: dups.induct) auto

lemma sorted_dups: "sorted xs \<Longrightarrow> sorted (dups xs)"
proof (induction xs rule: dups.induct)
  case (1 x y zs)
  then show ?case using set_dups_subset [of "y # zs"] by auto
qed simp_all

lemma count_dups:
  "sorted xs \<Longrightarrow> count_list (dups xs) v = count_list xs v - 1"
proof (induction xs rule: dups.induct)
  case (1 x y zs)
  then have ih: "count_list (dups (y # zs)) v = count_list (y # zs) v - 1" by simp
  show ?case
  proof (cases "y = x")
    case True
    then show ?thesis using ih by (cases "x = v") simp_all
  next
    case False
    with 1 have "x \<notin> set (y # zs)" by auto
    then have "count_list (y # zs) x = 0" by (simp only: count_list_0_iff not_False_eq_True)
    then show ?thesis using ih False by auto
  qed
qed simp_all

lemma count_list_sort: "count_list (sort_key f xs) v = count_list xs v"
proof -
  have "length (filter ((=) v) (sort_key f xs)) = length (sort_key f (filter ((=) v) xs))"
    by (simp only: filter_sort)
  then show ?thesis by (simp add: count_list_eq_length_filter)
qed

lemma intersect1d_eq: "intersect1d a b = Some (dups (sort (a @ b)))"
proof -
  have "length (adj_eq (sort (a @ b))) \<le> length (sort (a @ b))"
    by (simp add: length_adj_eq)
  then show ?thesis
    by (simp add: intersect1d_def Let_def mask_index_compress compress_adj_eq)
qed

text \<open>
  Claim C2. For all sequences \<open>a\<close> and \<open>b\<close>, \<open>intersect1d\<close> returns an ascending
  sequence in which every value occurs one time less than in the sorted concatenation
  of \<open>a\<close> and \<open>b\<close> (and a value that does not occur there does not occur): a run of
  \<open>k\<close> equal values gives \<open>k - 1\<close> copies. In particular
  \<open>intersect1d [1,3,3] [3,1,1]\<close> is \<open>[1,1,3,3]\<close>.
\<close>

theorem intersect1d_run_count:
  "(\<exists>r. intersect1d a b = Some r \<and> sorted r
        \<and> (\<forall>v. count_list r v = count_list (sort (a @ b)) v - 1))
   \<and> intersect1d [1, 3, 3] [3, 1, 1 :: int] = Some [1, 1, 3, 3]"
proof -
  have "intersect1d [1, 3, 3] [3, 1, 1 :: int] = Some [1, 1, 3, 3]"
    by code_simp
  then show ?thesis
    by (simp add: intersect1d_eq sorted_dups count_dups)
qed

theorem intersect1d_run_count_witness:
  "\<exists>r. intersect1d [2, 2, 5] [2, 7 :: int] = Some r \<and> sorted r
       \<and> count_list r 2 = 2 \<and> count_list r 5 = 0 \<and> count_list r 9 = 0"
proof -
  from intersect1d_run_count [of "[2, 2, 5]" "[2, 7 :: int]"]
  obtain r where r: "intersect1d [2, 2, 5] [2, 7 :: int] = Some r" "sorted r"
      "\<forall>v. count_list r v = count_list (sort ([2, 2, 5] @ [2, 7 :: int])) v - 1"
    by blast
  from r(3) have "count_list r 2 = 2" "count_list r 5 = 0" "count_list r 9 = 0"
    by simp_all
  with r show ?thesis by blast
qed


section \<open>The stable sort and \<open>setmember1d\<close>\<close>

subsection \<open>The permutation of the stable sort\<close>

text \<open>
  The stable sort orders the pairs (value, position) by \<open>lexlt\<close>; so \<open>argsort\<close> returns
  a permutation of the positions that sorts the values and keeps equal values in their
  first order.
\<close>

lemma lexlt_trans: "lexlt p q \<Longrightarrow> lexlt q r \<Longrightarrow> lexlt p r"
  by (auto simp: lexlt_def)

lemma lexlt_irrefl: "\<not> lexlt p p"
  by (simp add: lexlt_def)

lemma sorted_wrt_lexlt_insort:
  "sorted_wrt lexlt ys \<Longrightarrow> \<forall>y \<in> set ys. k < snd y \<Longrightarrow>
     sorted_wrt lexlt (insort_key fst (x, k) ys)"
proof (induction ys)
  case Nil
  then show ?case by simp
next
  case (Cons y ys)
  show ?case
  proof (cases "x \<le> fst y")
    case True
    with Cons.prems have xy: "lexlt (x, k) y" by (auto simp: lexlt_def)
    with Cons.prems have "\<forall>z \<in> set ys. lexlt (x, k) z"
      by (auto intro: lexlt_trans)
    with xy Cons.prems True show ?thesis by simp
  next
    case False
    then have "lexlt y (x, k)" by (auto simp: lexlt_def)
    with Cons False show ?thesis by (auto simp: set_insort_key)
  qed
qed

lemma sorted_wrt_lexlt_sort_zip:
  "sorted_wrt lexlt (sort_key fst (zip c [k..<k + length c]))"
proof (induction c arbitrary: k)
  case Nil
  then show ?case by simp
next
  case (Cons x xs)
  have z: "zip (x # xs) [k..<k + length (x # xs)] = (x, k) # zip xs [Suc k..<Suc k + length xs]"
    by (simp add: upt_conv_Cons del: upt_Suc)
  have "\<forall>y \<in> set (zip xs [Suc k..<Suc k + length xs]). k < snd y"
    by (auto dest!: set_zip_rightD)
  then show ?case
    using Cons.IH [of "Suc k"]
    by (simp only: z sort_key_simps) (rule sorted_wrt_lexlt_insort, simp_all)
qed

lemma sorted_wrt_lexlt_ssort: "sorted_wrt lexlt (ssort c)"
  using sorted_wrt_lexlt_sort_zip [of c 0] by (simp add: ssort_def)

lemma length_ssort: "length (ssort c) = length c"
  by (simp add: ssort_def)

lemma set_ssort: "set (ssort c) = {(c ! i, i) | i. i < length c}"
  by (auto simp: ssort_def set_zip)

lemma ssort_nth_less:
  "i < j \<Longrightarrow> j < length c \<Longrightarrow> lexlt (ssort c ! i) (ssort c ! j)"
  using sorted_wrt_lexlt_ssort [of c] by (simp add: sorted_wrt_iff_nth_less length_ssort)

lemma argsort_ssort: "argsort c = map snd (ssort c)"
  by (simp add: argsort_def ssort_def)

lemma length_argsort: "length (argsort c) = length c"
  by (simp add: argsort_ssort length_ssort)

lemma ssort_nth:
  assumes "j < length c"
  shows "argsort c ! j < length c" "ssort c ! j = (c ! (argsort c ! j), argsort c ! j)"
proof -
  from assms have "ssort c ! j \<in> set (ssort c)" by (simp add: length_ssort)
  then obtain i where "ssort c ! j = (c ! i, i)" "i < length c"
    by (auto simp: set_ssort)
  moreover have "argsort c ! j = snd (ssort c ! j)"
    using assms by (simp add: argsort_ssort length_ssort)
  ultimately show "argsort c ! j < length c"
      "ssort c ! j = (c ! (argsort c ! j), argsort c ! j)"
    by simp_all
qed

lemma set_argsort: "set (argsort c) = {0..<length c}"
proof -
  have "set (argsort c) = snd ` set (ssort c)" by (simp add: argsort_ssort)
  also have "\<dots> = {0..<length c}" by (force simp: set_ssort)
  finally show ?thesis .
qed

lemma distinct_argsort: "distinct (argsort c)"
  by (rule card_distinct) (simp add: set_argsort length_argsort)

lemma argsort_stable:
  assumes "i < j" "j < length c" "c ! (argsort c ! i) = c ! (argsort c ! j)"
  shows "argsort c ! i < argsort c ! j"
  using ssort_nth_less [OF assms(1,2)] assms ssort_nth(2) [of i c] ssort_nth(2) [of j c]
  by (simp add: lexlt_def)

lemma argsort_sorted:
  assumes "i < j" "j < length c"
  shows "c ! (argsort c ! i) \<le> c ! (argsort c ! j)"
  using ssort_nth_less [OF assms(1,2)] assms ssort_nth(2) [of i c] ssort_nth(2) [of j c]
  by (auto simp: lexlt_def)

subsection \<open>Array assignment and the second \<open>argsort\<close>\<close>

text \<open>
  After the two assignments the positions of the sort permutation that hold an index of
  \<open>ar1\<close> are unchanged and all others hold an index of \<open>ar2\<close>; the second \<open>argsort\<close>
  then finds, for every index of \<open>ar1\<close>, its position in the sorted order.
\<close>

lemma first_index_nth:
  "j < length xs \<Longrightarrow> \<forall>k < j. xs ! k \<noteq> xs ! j \<Longrightarrow> first_index xs (xs ! j) = j"
proof (induction xs arbitrary: j)
  case Nil
  then show ?case by simp
next
  case (Cons x xs)
  show ?case
  proof (cases j)
    case 0
    then show ?thesis by simp
  next
    case (Suc j')
    with Cons.prems have "x \<noteq> xs ! j'" by auto
    moreover have "\<forall>k < j'. xs ! k \<noteq> xs ! j'"
      using Cons.prems(2) Suc by auto
    ultimately show ?thesis
      using Cons.IH [of j'] Cons.prems(1) Suc by simp
  qed
qed

lemma first_index_distinct:
  "distinct xs \<Longrightarrow> j < length xs \<Longrightarrow> first_index xs (xs ! j) = j"
  by (rule first_index_nth) (auto simp: nth_eq_iff_index_eq)

lemma fold_upd_length:
  "length (fold (\<lambda>(i, v) p. p[i := v]) ivs p) = length p"
  by (induction ivs arbitrary: p) (simp_all add: case_prod_beta)

lemma fold_upd_nth_notin:
  "j \<notin> fst ` set ivs \<Longrightarrow> fold (\<lambda>(i, v) p. p[i := v]) ivs p ! j = p ! j"
  by (induction ivs arbitrary: p) (auto simp: case_prod_beta)

lemma fold_upd_nth:
  "j < length p \<Longrightarrow>
     fold (\<lambda>(i, v) p. p[i := v]) ivs p ! j = p ! j
     \<or> fold (\<lambda>(i, v) p. p[i := v]) ivs p ! j \<in> snd ` set ivs"
proof (induction ivs arbitrary: p)
  case Nil
  then show ?case by simp
next
  case (Cons iv ivs)
  obtain i v where iv: "iv = (i, v)" by (cases iv)
  from Cons.prems have "j < length (p[i := v])" by simp
  from Cons.IH [OF this] show ?case
    by (cases "i = j") (use Cons.prems in \<open>auto simp: iv\<close>)
qed

lemma put_Some:
  assumes "list_all (\<lambda>i. i < length p) idx"
  shows "\<exists>q. put p idx vals = Some q \<and> length q = length p
           \<and> (\<forall>j. j \<notin> set idx \<longrightarrow> q ! j = p ! j)
           \<and> (\<forall>j < length p. q ! j = p ! j \<or> q ! j \<in> set vals)"
proof -
  let ?q = "fold (\<lambda>(i, v) p. p[i := v]) (zip idx vals) p"
  have "put p idx vals = Some ?q" using assms by (simp add: put_def)
  moreover have "length ?q = length p" by (rule fold_upd_length)
  moreover have "\<forall>j. j \<notin> set idx \<longrightarrow> ?q ! j = p ! j"
    by (auto intro!: fold_upd_nth_notin dest: set_zip_leftD)
  moreover have "\<forall>j < length p. ?q ! j = p ! j \<or> ?q ! j \<in> set vals"
  proof (intro allI impI)
    fix j assume "j < length p"
    from fold_upd_nth [OF this, of "zip idx vals"]
    show "?q ! j = p ! j \<or> ?q ! j \<in> set vals"
      by (auto dest: set_zip_rightD)
  qed
  ultimately show ?thesis by blast
qed

lemma map_insort_key: "map f (insort_key f x xs) = insort (f x) (map f xs)"
  by (induction xs) simp_all

lemma map_sort_key: "map f (sort_key f xs) = sort (map f xs)"
  by (induction xs) (simp_all add: map_insort_key)

lemma argsort_values: "map ((!) c) (argsort c) = sort c"
proof -
  have "map ((!) c) (argsort c) = map fst (ssort c)"
    by (rule nth_equalityI) (simp_all add: length_argsort length_ssort ssort_nth(2))
  also have "\<dots> = sort c"
    by (simp add: ssort_def map_sort_key)
  finally show ?thesis .
qed

text \<open>The stable permutation is one of the results \<open>is_argsort\<close> admits.\<close>

lemma is_argsort_argsort: "is_argsort (argsort c) c"
proof -
  have "sort (argsort c) = [0..<length c]"
    by (rule sorted_distinct_set_unique) (simp_all add: distinct_argsort set_argsort)
  moreover have "sorted (map ((!) c) (argsort c))"
    by (simp only: argsort_values sorted_sort)
  ultimately show ?thesis by (simp add: is_argsort_def)
qed

lemma sorted_partition:
  "sorted xs \<Longrightarrow> xs = filter (\<lambda>x. x < m) xs @ filter (\<lambda>x. m \<le> x) xs"
proof (induction xs)
  case Nil
  then show ?case by simp
next
  case (Cons x xs)
  show ?case
  proof (cases "x < m")
    case True
    with Cons show ?thesis by simp
  next
    case False
    with Cons.prems have "\<forall>y \<in> set xs. m \<le> y" by auto
    then have "filter (\<lambda>x. x < m) xs = []" "filter (\<lambda>x. m \<le> x) xs = xs"
      by (auto simp: filter_empty_conv filter_id_conv)
    with False show ?thesis by simp
  qed
qed

lemma filter_cong_all2:
  "list_all2 (\<lambda>x y. (P x \<longleftrightarrow> P y) \<and> (P x \<longrightarrow> x = y)) xs ys \<Longrightarrow> filter P xs = filter P ys"
proof (induction xs ys rule: list_all2_induct)
  case Nil
  show ?case by simp
next
  case (Cons x xs y ys)
  then show ?case by (cases "P x") simp_all
qed

lemma filter_cong_nth:
  assumes "length xs = length ys"
    and "\<And>j. j < length xs \<Longrightarrow> (P (xs ! j) \<longleftrightarrow> P (ys ! j)) \<and> (P (xs ! j) \<longrightarrow> xs ! j = ys ! j)"
  shows "filter P xs = filter P ys"
proof (rule filter_cong_all2)
  show "list_all2 (\<lambda>x y. (P x \<longleftrightarrow> P y) \<and> (P x \<longrightarrow> x = y)) xs ys"
    unfolding list_all2_conv_all_nth
  proof (intro conjI allI impI)
    show "length xs = length ys" by (rule assms(1))
  next
    fix i assume "i < length xs"
    from assms(2) [OF this] show "P (xs ! i) = P (ys ! i)" by blast
  next
    fix i assume "i < length xs" "P (xs ! i)"
    with assms(2) [of i] show "xs ! i = ys ! i" by blast
  qed
qed

lemma sort_low_part:
  fixes p :: "nat list"
  assumes "distinct p" "set p = {0..<n}" "m \<le> n"
  shows "sort (filter (\<lambda>x. x < m) p) = [0..<m]"
proof (rule sorted_distinct_set_unique)
  show "set (sort (filter (\<lambda>x. x < m) p)) = set [0..<m]"
    using assms by auto
qed (use assms in simp_all)

lemma argsort_inverse:
  fixes p p2 :: "nat list"
  assumes "distinct p" "set p = {0..<n}" "length p = n" "length p2 = n" "m \<le> n"
    and same: "\<And>j. j < n \<Longrightarrow> p ! j < m \<Longrightarrow> p2 ! j = p ! j"
    and high: "\<And>j. j < n \<Longrightarrow> m \<le> p ! j \<Longrightarrow> m \<le> p2 ! j"
    and j: "j < n" "p ! j < m"
  shows "argsort p2 ! (p ! j) = j"
proof -
  let ?t = "argsort p2"
  let ?v = "p ! j"
  have f: "filter (\<lambda>x. x < m) p2 = filter (\<lambda>x. x < m) p"
  proof (rule filter_cong_nth)
    fix k assume "k < length p2"
    then have "k < n" using assms(4) by simp
    then show "(p2 ! k < m \<longleftrightarrow> p ! k < m) \<and> (p2 ! k < m \<longrightarrow> p2 ! k = p ! k)"
      using same [of k] high [of k] by (cases "p ! k < m") auto
  qed (simp add: assms)
  have "sort p2 = filter (\<lambda>x. x < m) (sort p2) @ filter (\<lambda>x. m \<le> x) (sort p2)"
    by (rule sorted_partition) simp
  also have "filter (\<lambda>x. x < m) (sort p2) = [0..<m]"
    by (simp only: filter_sort f sort_low_part [OF assms(1,2,5)])
  finally obtain r where "sort p2 = [0..<m] @ r" ..
  then have "sort p2 ! ?v = [0..<m] ! ?v"
    using j(2) by (simp only: nth_append length_upt diff_zero if_True)
  then have "sort p2 ! ?v = ?v"
    using j(2) by simp
  moreover have vn: "?v < length p2" using j(2) assms(4,5) by simp
  ultimately have v: "p2 ! (?t ! ?v) = ?v"
    using arg_cong [OF argsort_values [of p2], of "\<lambda>l. l ! ?v"]
    by (simp add: length_argsort)
  have tn: "?t ! ?v < n"
    using ssort_nth(1) [OF vn] assms(4) by simp
  have "p ! (?t ! ?v) < m"
    using high [OF tn] v j(2) by (cases "p ! (?t ! ?v) < m") auto
  with same [OF tn] v have "p ! (?t ! ?v) = p ! j" by simp
  moreover have "?t ! ?v < length p" "j < length p"
    using tn j(1) assms(3) by simp_all
  ultimately show ?thesis
    using nth_eq_iff_index_eq [OF assms(1), of "?t ! ?v" j] by blast
qed

subsection \<open>The mask\<close>

lemma adj_eq_nth: "Suc j < length xs \<Longrightarrow> adj_eq xs ! j = (xs ! Suc j = xs ! j)"
  by (simp add: adj_eq_def nth_tl nth_butlast)

lemma set_nonzero: "set (nonzero m) = {j. j < length m \<and> m ! j}"
  by (auto simp: nonzero_def)

lemma flag_nth:
  assumes "j < length c"
  shows "(adj_eq (map ((!) c) (argsort c)) @ [False]) ! j = succ_eq c j"
proof (cases "Suc j < length c")
  case True
  then have "j < length (adj_eq (map ((!) c) (argsort c)))"
    by (simp add: length_adj_eq length_argsort)
  then show ?thesis
    using True assms by (simp add: nth_append adj_eq_nth length_argsort succ_eq_def)
next
  case False
  with assms have "j = length (adj_eq (map ((!) c) (argsort c)))"
    by (simp add: length_adj_eq length_argsort)
  then show ?thesis
    using False by (simp add: succ_eq_def)
qed

lemma tag_nth:
  assumes "k < length a + length b"
  shows "(replicate (length a) (0 :: 8 word) @ replicate (length b) 1) ! k \<noteq> 0
           \<longleftrightarrow> length a \<le> k"
  using assms by (simp add: nth_append)

lemma swap_positions:
  fixes a b :: "'a::linorder list"
  defines "c \<equiv> a @ b"
  defines "flag \<equiv> adj_eq (map ((!) c) (argsort c)) @ [False]"
  defines "aux2 \<equiv> map ((!) (replicate (length a) (0 :: 8 word) @ replicate (length b) 1)) (argsort c)"
  shows "j \<in> set (nonzero (map2 (\<lambda>f t. of_bool f * t \<noteq> 0) flag aux2))
           \<longleftrightarrow> j < length c \<and> succ_eq c j \<and> length a \<le> argsort c ! j"
proof -
  have lf: "length c \<le> length flag"
    by (simp add: flag_def length_adj_eq length_argsort)
  have la: "length aux2 = length c"
    by (simp add: aux2_def length_argsort)
  have len: "length (map2 (\<lambda>f t. of_bool f * t \<noteq> 0) flag aux2) = length c"
    using lf la by simp
  have "(map2 (\<lambda>f t. of_bool f * t \<noteq> 0) flag aux2) ! j
          \<longleftrightarrow> succ_eq c j \<and> length a \<le> argsort c ! j" if j: "j < length c" for j
  proof -
    have k: "argsort c ! j < length a + length b"
      using ssort_nth(1) [OF j] by (simp add: c_def)
    have "aux2 ! j \<noteq> 0 \<longleftrightarrow> length a \<le> argsort c ! j"
      using j tag_nth [OF k] by (simp add: aux2_def length_argsort)
    moreover have "flag ! j = succ_eq c j"
      unfolding flag_def by (rule flag_nth [OF j])
    ultimately show ?thesis
      using j lf la by simp
  qed
  then show ?thesis
    using len by (auto simp: set_nonzero)
qed

lemma swap_positions_high:
  assumes "j < length c" "succ_eq c j" "m \<le> argsort c ! j"
  shows "Suc j < length c" "m \<le> argsort c ! Suc j"
proof -
  from assms(2) show s: "Suc j < length c" by (simp add: succ_eq_def)
  from assms(2) have "c ! (argsort c ! j) = c ! (argsort c ! Suc j)"
    by (simp add: succ_eq_def)
  from argsort_stable [OF _ s this] assms(3) show "m \<le> argsort c ! Suc j" by simp
qed

lemma setmember1d_eq:
  fixes a b :: "'a::linorder list"
  shows "setmember1d a b =
    Some (map (\<lambda>i. succ_eq (a @ b) (first_index (argsort (a @ b)) i)) [0..<length a])"
proof -
  let ?c = "a @ b"
  let ?n = "length ?c"
  let ?m = "length a"
  let ?tt = "replicate (length a) (0 :: 8 word) @ replicate (length b) 1"
  let ?perm = "argsort ?c"
  let ?aux = "map ((!) ?c) ?perm"
  let ?aux2 = "map ((!) ?tt) ?perm"
  let ?flag = "adj_eq ?aux @ [False]"
  define ii where "ii = nonzero (map2 (\<lambda>f t. of_bool f * t \<noteq> 0) ?flag ?aux2)"
  let ?aux' = "map ((!) ?perm) (map Suc ii)"
  let ?vals = "map ((!) ?perm) ii"
  have lp: "length ?perm = ?n" by (rule length_argsort)
  have sp: "set ?perm = {0..<?n}" by (rule set_argsort)
  have dp: "distinct ?perm" by (rule distinct_argsort)
  have s1: "take_idx ?c ?perm = Some ?aux"
    by (rule take_idx_Some) (simp add: list_all_iff sp)
  have s2: "take_idx ?tt ?perm = Some ?aux2"
    by (rule take_idx_Some) (simp add: list_all_iff sp)
  have ii: "j \<in> set ii \<longleftrightarrow> j < ?n \<and> succ_eq ?c j \<and> ?m \<le> ?perm ! j" for j
    unfolding ii_def by (rule swap_positions)
  have ii_high: "Suc j < ?n \<and> ?m \<le> ?perm ! j \<and> ?m \<le> ?perm ! Suc j" if "j \<in> set ii" for j
    using that swap_positions_high [of j ?c ?m] unfolding ii by blast
  have ii_lt: "j < ?n" "Suc j < ?n" if "j \<in> set ii" for j
    using ii_high [OF that] by simp_all
  have s3: "take_idx ?perm (map Suc ii) = Some ?aux'"
    by (rule take_idx_Some) (use ii_lt lp in \<open>auto simp: list_all_iff\<close>)
  have s4: "take_idx ?perm ii = Some ?vals"
    by (rule take_idx_Some) (use ii_lt lp in \<open>auto simp: list_all_iff\<close>)
  have hv: "\<forall>v \<in> set ?vals. ?m \<le> v" and ha: "\<forall>v \<in> set ?aux'. ?m \<le> v"
    using ii_high by auto
  have "list_all (\<lambda>i. i < length ?perm) (map Suc ii)"
    using ii_lt lp by (auto simp: list_all_iff)
  from put_Some [OF this, of ?vals]
  obtain perm1 where p1: "put ?perm (map Suc ii) ?vals = Some perm1"
    and l1: "length perm1 = ?n"
    and u1: "\<And>j. j \<notin> set (map Suc ii) \<Longrightarrow> perm1 ! j = ?perm ! j"
    and w1: "\<And>j. j < ?n \<Longrightarrow> perm1 ! j = ?perm ! j \<or> perm1 ! j \<in> set ?vals"
    using lp by auto
  have "list_all (\<lambda>i. i < length perm1) ii"
    using ii_lt l1 by (auto simp: list_all_iff)
  from put_Some [OF this, of ?aux']
  obtain perm2 where p2: "put perm1 ii ?aux' = Some perm2"
    and l2: "length perm2 = ?n"
    and u2: "\<And>j. j \<notin> set ii \<Longrightarrow> perm2 ! j = perm1 ! j"
    and w2: "\<And>j. j < ?n \<Longrightarrow> perm2 ! j = perm1 ! j \<or> perm2 ! j \<in> set ?aux'"
    using l1 by auto
  have same: "perm2 ! j = ?perm ! j" if "j < ?n" "?perm ! j < ?m" for j
  proof -
    have "j \<notin> set ii" using that ii_high [of j] by auto
    moreover have "j \<notin> set (map Suc ii)"
    proof
      assume "j \<in> set (map Suc ii)"
      then obtain k where "k \<in> set ii" "j = Suc k" by auto
      with ii_high [of k] that show False by simp
    qed
    ultimately show ?thesis using u1 u2 by simp
  qed
  have high: "?m \<le> perm2 ! j" if "j < ?n" "?m \<le> ?perm ! j" for j
  proof -
    have "?m \<le> perm1 ! j" using w1 [OF that(1)] that(2) hv by auto
    then show ?thesis using w2 [OF that(1)] ha by auto
  qed
  have inv: "argsort perm2 ! (?perm ! j) = j" if "j < ?n" "?perm ! j < ?m" for j
    using dp sp lp l2 _ same high that
    by (rule argsort_inverse [where n = ?n and m = ?m]) simp_all
  have pos: "first_index ?perm i < ?n \<and> argsort perm2 ! i = first_index ?perm i"
    if "i < ?m" for i
  proof -
    from that have "i \<in> set ?perm" by (simp add: sp)
    then obtain j where j: "j < ?n" "?perm ! j = i"
      using lp by (auto simp: in_set_conv_nth)
    then have "first_index ?perm i = j"
      using first_index_distinct [OF dp, of j] lp by simp
    with inv [of j] j that show ?thesis by simp
  qed
  have indx: "take ?m (argsort perm2) = map (first_index ?perm) [0..<?m]"
    by (rule nth_equalityI) (simp_all add: length_argsort l2 pos)
  have lf: "?n \<le> length ?flag"
    by (simp add: length_adj_eq length_argsort)
  have "first_index ?perm i < length ?flag" if "i < ?m" for i
    using pos [OF that] lf by (meson less_le_trans)
  then have "list_all (\<lambda>i. i < length ?flag) (map (first_index ?perm) [0..<?m])"
    by (simp add: list_all_iff)
  then have s5: "take_idx ?flag (take ?m (argsort perm2))
                  = Some (map ((!) ?flag) (map (first_index ?perm) [0..<?m]))"
    unfolding indx by (rule take_idx_Some)
  have fin: "map ((!) ?flag) (map (first_index ?perm) [0..<?m])
               = map (\<lambda>i. succ_eq ?c (first_index ?perm i)) [0..<?m]"
    using pos flag_nth [of _ ?c] by simp
  show ?thesis
    unfolding setmember1d_def Let_def
    by (simp only: s1 s2 s3 [unfolded ii_def] s4 [unfolded ii_def] p1 [unfolded ii_def]
        p2 [unfolded ii_def] s5 fin bind.bind_lunit)
qed

lemma argsort_position:
  assumes "i < length c"
  shows "first_index (argsort c) i < length c" "argsort c ! first_index (argsort c) i = i"
proof -
  from assms have "i \<in> set (argsort c)" by (simp add: set_argsort)
  then obtain j where j: "j < length c" "argsort c ! j = i"
    by (auto simp: in_set_conv_nth length_argsort)
  then have "first_index (argsort c) i = j"
    using first_index_distinct [OF distinct_argsort, of j c] by (simp add: length_argsort)
  with j show "first_index (argsort c) i < length c"
      "argsort c ! first_index (argsort c) i = i"
    by simp_all
qed

lemma succ_eq_later:
  assumes i: "i < length c"
  shows "succ_eq c (first_index (argsort c) i) \<longleftrightarrow> (\<exists>k. i < k \<and> k < length c \<and> c ! k = c ! i)"
proof
  let ?p = "argsort c"
  let ?j = "first_index ?p i"
  note j = argsort_position [OF i]
  {
    assume "succ_eq c ?j"
    then have s: "Suc ?j < length c" and e: "c ! (?p ! Suc ?j) = c ! (?p ! ?j)"
      by (simp_all add: succ_eq_def)
    have "?p ! ?j < ?p ! Suc ?j"
      by (rule argsort_stable [OF _ s]) (simp_all add: e)
    moreover have "?p ! Suc ?j < length c" by (rule ssort_nth(1) [OF s])
    ultimately show "\<exists>k. i < k \<and> k < length c \<and> c ! k = c ! i"
      using e j(2) by auto
  }
  {
    assume "\<exists>k. i < k \<and> k < length c \<and> c ! k = c ! i"
    then obtain k where k: "i < k" "k < length c" "c ! k = c ! i" by blast
    let ?j' = "first_index ?p k"
    note j' = argsort_position [OF k(2)]
    have "?j < ?j'"
    proof (rule ccontr)
      assume "\<not> ?j < ?j'"
      moreover have "?j' \<noteq> ?j" using j(2) j'(2) k(1) by auto
      ultimately have lt: "?j' < ?j" by simp
      have "?p ! ?j' < ?p ! ?j"
        by (rule argsort_stable [OF lt j(1)]) (simp add: j(2) j'(2) k(3))
      with j(2) j'(2) k(1) show False by simp
    qed
    then have s: "Suc ?j < length c" using j'(1) by simp
    have "c ! (?p ! ?j) \<le> c ! (?p ! Suc ?j)"
      by (rule argsort_sorted [OF _ s]) simp
    moreover have "c ! (?p ! Suc ?j) \<le> c ! (?p ! ?j')"
    proof (cases "Suc ?j = ?j'")
      case True
      then show ?thesis by simp
    next
      case False
      with \<open>?j < ?j'\<close> have "Suc ?j < ?j'" by simp
      then show ?thesis by (rule argsort_sorted [OF _ j'(1)])
    qed
    ultimately have "c ! (?p ! Suc ?j) = c ! (?p ! ?j)"
      using j(2) j'(2) k(3) by simp
    with s show "succ_eq c ?j" by (simp add: succ_eq_def)
  }
qed

lemma later_iff_drop:
  "(\<exists>k. i < k \<and> k < length c \<and> c ! k = x) \<longleftrightarrow> x \<in> set (drop (Suc i) c)"
proof
  assume "\<exists>k. i < k \<and> k < length c \<and> c ! k = x"
  then obtain k where k: "i < k" "k < length c" "c ! k = x" by blast
  then have "drop (Suc i) c ! (k - Suc i) = x" "k - Suc i < length (drop (Suc i) c)"
    by simp_all
  then show "x \<in> set (drop (Suc i) c)" by (metis nth_mem)
next
  assume "x \<in> set (drop (Suc i) c)"
  then obtain l where "l < length (drop (Suc i) c)" "drop (Suc i) c ! l = x"
    by (auto simp: in_set_conv_nth)
  then have "i < Suc i + l \<and> Suc i + l < length c \<and> c ! (Suc i + l) = x"
    by auto
  then show "\<exists>k. i < k \<and> k < length c \<and> c ! k = x" by blast
qed

lemma setmember1d_later:
  "setmember1d a b = Some (map (\<lambda>i. a ! i \<in> set (drop (Suc i) a) \<union> set b) [0..<length a])"
proof -
  have "succ_eq (a @ b) (first_index (argsort (a @ b)) i)
          \<longleftrightarrow> a ! i \<in> set (drop (Suc i) a) \<union> set b" if "i < length a" for i
  proof -
    from that have "i < length (a @ b)" by simp
    from succ_eq_later [OF this]
    have "succ_eq (a @ b) (first_index (argsort (a @ b)) i)
            \<longleftrightarrow> (a @ b) ! i \<in> set (drop (Suc i) (a @ b))"
      by (simp only: later_iff_drop)
    moreover have "(a @ b) ! i = a ! i" "drop (Suc i) (a @ b) = drop (Suc i) a @ b"
      using that by (simp_all add: nth_append)
    ultimately show ?thesis by simp
  qed
  then show ?thesis
    by (simp add: setmember1d_eq)
qed

lemma setmember1d_distinct:
  assumes "distinct a"
  shows "setmember1d a b = Some (map (\<lambda>x. x \<in> set b) a)"
proof -
  have "a ! i \<notin> set (drop (Suc i) a)" if "i < length a" for i
  proof -
    have "a = take i a @ a ! i # drop (Suc i) a"
      using that by (simp add: id_take_nth_drop)
    with assms have "distinct (take i a @ a ! i # drop (Suc i) a)" by simp
    then show ?thesis by simp
  qed
  then have "map (\<lambda>i. a ! i \<in> set (drop (Suc i) a) \<union> set b) [0..<length a]
             = map (\<lambda>i. a ! i \<in> set b) [0..<length a]"
    by simp
  also have "\<dots> = map (\<lambda>x. x \<in> set b) (map ((!) a) [0..<length a])"
    by (simp add: o_def)
  also have "\<dots> = map (\<lambda>x. x \<in> set b) a"
    by (simp only: map_nth)
  finally show ?thesis by (simp only: setmember1d_later)
qed


text \<open>
  Claim C1, amended. For all sequences \<open>a\<close> and \<open>b\<close>, \<open>setmember1d\<close> returns a mask of
  the length of \<open>a\<close>; entry \<open>i\<close> is true if and only if \<open>a[i]\<close> equals some element of
  \<open>b\<close> or some later element of \<open>a\<close>. Hence, when \<open>a\<close> has no duplicates, entry \<open>i\<close> is
  true if and only if \<open>a[i]\<close> equals some element of \<open>b\<close>. The mask depends on \<open>b\<close> only
  through the set of its values, not on how often a value repeats in \<open>b\<close>.
\<close>

theorem setmember1d_mask:
  "\<exists>msk. setmember1d a b = Some msk \<and> length msk = length a
     \<and> (\<forall>i < length a. msk ! i \<longleftrightarrow> a ! i \<in> set b \<or> a ! i \<in> set (drop (Suc i) a))
     \<and> (distinct a \<longrightarrow> (\<forall>i < length a. msk ! i \<longleftrightarrow> a ! i \<in> set b))
     \<and> (\<forall>b'. set b' = set b \<longrightarrow> setmember1d a b' = Some msk)"
proof -
  let ?msk = "map (\<lambda>i. a ! i \<in> set (drop (Suc i) a) \<union> set b) [0..<length a]"
  have "setmember1d a b = Some ?msk" by (rule setmember1d_later)
  moreover have "length ?msk = length a" by simp
  moreover have "\<forall>i < length a. ?msk ! i \<longleftrightarrow> a ! i \<in> set b \<or> a ! i \<in> set (drop (Suc i) a)"
    by auto
  moreover have "distinct a \<longrightarrow> (\<forall>i < length a. ?msk ! i \<longleftrightarrow> a ! i \<in> set b)"
  proof
    assume "distinct a"
    from setmember1d_distinct [OF this, of b]
    have "?msk = map (\<lambda>x. x \<in> set b) a" by (simp only: setmember1d_later option.inject)
    then show "\<forall>i < length a. ?msk ! i \<longleftrightarrow> a ! i \<in> set b" by simp
  qed
  moreover have "\<forall>b'. set b' = set b \<longrightarrow> setmember1d a b' = Some ?msk"
    by (simp add: setmember1d_later)
  ultimately show ?thesis by blast
qed

theorem setmember1d_mask_witness:
  "distinct [1, 2, 3, 4 :: int] \<and> set [4, 2 :: int] = set [2, 4, 4]
   \<and> (\<exists>msk. setmember1d [1, 2, 3, 4 :: int] [2, 4, 4] = Some msk
         \<and> length msk = 4 \<and> msk ! 1 \<and> \<not> msk ! 2
         \<and> setmember1d [1, 2, 3, 4 :: int] [4, 2] = Some msk)"
proof -
  have d: "distinct [1, 2, 3, 4 :: int]" and s: "set [4, 2 :: int] = set [2, 4, 4]"
    by auto
  from setmember1d_mask [of "[1, 2, 3, 4 :: int]" "[2, 4, 4]"]
  obtain msk where m: "setmember1d [1, 2, 3, 4 :: int] [2, 4, 4] = Some msk"
      "length msk = length [1, 2, 3, 4 :: int]"
      "distinct [1, 2, 3, 4 :: int] \<longrightarrow>
         (\<forall>i < length [1, 2, 3, 4 :: int]. msk ! i \<longleftrightarrow> [1, 2, 3, 4 :: int] ! i \<in> set [2, 4, 4])"
      "\<forall>b'. set b' = set [2, 4, 4 :: int] \<longrightarrow> setmember1d [1, 2, 3, 4 :: int] b' = Some msk"
    by blast
  from m(3) d have "msk ! 1 \<longleftrightarrow> [1, 2, 3, 4 :: int] ! 1 \<in> set [2, 4, 4]"
      "msk ! 2 \<longleftrightarrow> [1, 2, 3, 4 :: int] ! 2 \<in> set [2, 4, 4]"
    by simp_all
  then have "msk ! 1" "\<not> msk ! 2" by simp_all
  moreover from m(4) s have "setmember1d [1, 2, 3, 4 :: int] [4, 2] = Some msk" by blast
  ultimately show ?thesis using d s m(1,2) by simp
qed

text \<open>
  Claim C1 as first stated also covers an \<open>a\<close> with duplicates, and fails there: for
  \<open>a = [1, 1]\<close> and the empty \<open>b\<close> the first entry of the mask is true although \<open>1\<close> is
  not an element of \<open>b\<close>.
\<close>

theorem setmember1d_duplicates_counterexample:
  "setmember1d [1 :: int, 1] [] = Some [True, False] \<and> (1 :: int) \<notin> set []"
proof -
  have "setmember1d [1 :: int, 1] [] = Some [True, False]" by code_simp
  then show ?thesis by simp
qed

text \<open>
  Claim C3. For every sequence \<open>a\<close> without duplicates and every sequence \<open>b\<close>,
  \<open>setmember1d\<close> returns a mask of the length of \<open>a\<close> whose entry \<open>i\<close> is true if and
  only if \<open>a[i]\<close> occurs in \<open>b\<close>; for the empty \<open>b\<close> the mask is all false.
\<close>

theorem setmember1d_unique_input:
  assumes "distinct a"
  shows "(\<exists>msk. setmember1d a b = Some msk \<and> length msk = length a
            \<and> (\<forall>i < length a. msk ! i \<longleftrightarrow> a ! i \<in> set b))
         \<and> setmember1d a [] = Some (replicate (length a) False)"
proof -
  have "setmember1d a [] = Some (replicate (length a) False)"
    by (simp add: setmember1d_distinct [OF assms] map_replicate_const)
  then show ?thesis
    by (simp add: setmember1d_distinct [OF assms])
qed

theorem setmember1d_unique_input_witness:
  "distinct [3, 1, 2 :: int]
   \<and> (\<exists>msk. setmember1d [3, 1, 2 :: int] [2, 2, 3] = Some msk \<and> length msk = 3
         \<and> msk ! 0 \<and> \<not> msk ! 1 \<and> msk ! 2)
   \<and> setmember1d [3, 1, 2 :: int] [] = Some [False, False, False]"
proof -
  have d: "distinct [3, 1, 2 :: int]" by simp
  from setmember1d_unique_input [OF d, of "[2, 2, 3]"]
  obtain msk where m: "setmember1d [3, 1, 2 :: int] [2, 2, 3] = Some msk"
      "length msk = length [3, 1, 2 :: int]"
      "\<forall>i < length [3, 1, 2 :: int]. msk ! i \<longleftrightarrow> [3, 1, 2 :: int] ! i \<in> set [2, 2, 3]"
      and e: "setmember1d [3, 1, 2 :: int] [] = Some (replicate (length [3, 1, 2 :: int]) False)"
    by blast
  from m(3) have "msk ! 0 \<longleftrightarrow> [3, 1, 2 :: int] ! 0 \<in> set [2, 2, 3]"
      "msk ! 1 \<longleftrightarrow> [3, 1, 2 :: int] ! 1 \<in> set [2, 2, 3]"
      "msk ! 2 \<longleftrightarrow> [3, 1, 2 :: int] ! 2 \<in> set [2, 2, 3]"
    by simp_all
  then have "msk ! 0" "\<not> msk ! 1" "msk ! 2" by simp_all
  moreover from e have "setmember1d [3, 1, 2 :: int] [] = Some [False, False, False]"
    by (simp add: numeral_3_eq_3)
  ultimately show ?thesis using d m(1,2) by simp
qed


section \<open>\<open>setdiff1d\<close> and \<open>intersect1d_nu\<close>\<close>

lemma compress_map_filter: "compress a (map P a) = filter P a"
  by (induction a) (simp_all add: compress_Nil compress_Cons)

lemma setdiff1d_distinct:
  assumes "distinct a"
  shows "setdiff1d a b = Some (filter (\<lambda>x. x \<notin> set b) a)"
proof -
  let ?aux = "map (\<lambda>x. x \<in> set b) a"
  have m: "setmember1d a b = Some ?aux" by (rule setmember1d_distinct [OF assms])
  have "length (map (\<lambda>m. m = False) ?aux) \<le> length a" by simp
  from mask_index_compress [OF this]
  have "mask_index a (map (\<lambda>m. m = False) ?aux) = Some (filter (\<lambda>x. x \<notin> set b) a)"
    using compress_map_filter [of a "\<lambda>x. x \<notin> set b"] by (simp add: o_def)
  then show ?thesis
    using m by (cases "a = []") (simp_all add: setdiff1d_def)
qed

lemma distinct_count_list:
  "distinct xs \<Longrightarrow> count_list xs v = (if v \<in> set xs then 1 else 0)"
  by (induction xs) auto

lemma count_le_1_distinct: "(\<And>v. count_list xs v \<le> 1) \<Longrightarrow> distinct xs"
proof (induction xs)
  case Nil
  then show ?case by simp
next
  case (Cons x xs)
  have "count_list xs v \<le> 1" for v
    using Cons.prems [of v] by (simp split: if_splits)
  then have "distinct xs" by (rule Cons.IH)
  moreover have "count_list xs x = 0" using Cons.prems [of x] by simp
  then have "x \<notin> set xs" by (simp add: count_list_0_iff)
  ultimately show ?case by simp
qed

lemma set_dups: "sorted xs \<Longrightarrow> set (dups xs) = {v. 2 \<le> count_list xs v}"
proof -
  assume s: "sorted xs"
  have "v \<in> set (dups xs) \<longleftrightarrow> 2 \<le> count_list xs v" for v
  proof -
    have "v \<in> set (dups xs) \<longleftrightarrow> count_list (dups xs) v \<noteq> 0"
      by (simp only: count_list_0_iff not_not)
    then show ?thesis by (simp add: count_dups [OF s]) arith
  qed
  then show ?thesis by blast
qed

lemma intersect1d_nu_eq:
  "intersect1d_nu a b = Some (dups (sort (remdups_adj (sort a) @ remdups_adj (sort b))))"
proof -
  let ?aux = "sort (remdups_adj (sort a) @ remdups_adj (sort b))"
  have "length (adj_eq ?aux) \<le> length ?aux" by (simp add: length_adj_eq)
  from mask_index_compress [OF this] show ?thesis
    by (simp add: intersect1d_nu_def unique1d_eq compress_adj_eq)
qed

lemma count_unique: "count_list (remdups_adj (sort a)) v = (if v \<in> set a then 1 else 0)"
proof -
  have "distinct (remdups_adj (sort a))"
    using strict_sorted_remdups_adj [of "sort a"] by (simp add: strict_sorted_iff)
  from distinct_count_list [OF this] show ?thesis by simp
qed

lemma set_intersect1d_nu:
  "set (dups (sort (remdups_adj (sort a) @ remdups_adj (sort b)))) = set a \<inter> set b"
  by (auto simp: set_dups count_list_sort count_unique split: if_splits)

text \<open>
  Claim C7. For all sequences \<open>a\<close> and \<open>b\<close> without duplicates, \<open>setdiff1d a b\<close> and
  \<open>intersect1d_nu a b\<close> partition \<open>a\<close>: the two results have no common element, and
  together they hold exactly the elements of \<open>unique1d a\<close>.
\<close>

theorem setdiff1d_intersect1d_nu_partition:
  assumes "distinct a" "distinct b"
  shows "\<exists>d t u. setdiff1d a b = Some d \<and> intersect1d_nu a b = Some t \<and> unique1d a = Some u
           \<and> set d \<inter> set t = {} \<and> set d \<union> set t = set u"
proof -
  let ?d = "filter (\<lambda>x. x \<notin> set b) a"
  let ?t = "dups (sort (remdups_adj (sort a) @ remdups_adj (sort b)))"
  let ?u = "remdups_adj (sort a)"
  have "set ?d \<inter> set ?t = {}" "set ?d \<union> set ?t = set ?u"
    by (auto simp: set_intersect1d_nu)
  then show ?thesis
    using setdiff1d_distinct [OF assms(1), of b] intersect1d_nu_eq [of a b] unique1d_eq [of a]
    by blast
qed

theorem setdiff1d_intersect1d_nu_partition_witness:
  "distinct [4, 1, 3, 2 :: int] \<and> distinct [2, 9, 4 :: int]
   \<and> (\<exists>d t u. setdiff1d [4, 1, 3, 2 :: int] [2, 9, 4] = Some d
         \<and> intersect1d_nu [4, 1, 3, 2 :: int] [2, 9, 4] = Some t
         \<and> unique1d [4, 1, 3, 2 :: int] = Some u
         \<and> d = [1, 3] \<and> t = [2, 4] \<and> u = [1, 2, 3, 4]
         \<and> set d \<inter> set t = {} \<and> set d \<union> set t = set u)"
proof -
  have h: "distinct [4, 1, 3, 2 :: int]" "distinct [2, 9, 4 :: int]" by simp_all
  from setdiff1d_intersect1d_nu_partition [OF h]
  obtain d t u where r: "setdiff1d [4, 1, 3, 2 :: int] [2, 9, 4] = Some d"
      "intersect1d_nu [4, 1, 3, 2 :: int] [2, 9, 4] = Some t"
      "unique1d [4, 1, 3, 2 :: int] = Some u"
      "set d \<inter> set t = {}" "set d \<union> set t = set u"
    by blast
  have "setdiff1d [4, 1, 3, 2 :: int] [2, 9, 4] = Some [1, 3]"
      "intersect1d_nu [4, 1, 3, 2 :: int] [2, 9, 4] = Some [2, 4]"
      "unique1d [4, 1, 3, 2 :: int] = Some [1, 2, 3, 4]"
    by code_simp+
  with r(1-3) have "d = [1, 3]" "t = [2, 4]" "u = [1, 2, 3, 4]" by simp_all
  with h r show ?thesis by blast
qed


section \<open>\<open>setxor1d\<close>\<close>

lemma xor_compress:
  "compress (x # xs) (adj_eq (f # adj_ne (x # xs) @ [True])) = xorf f (x # xs)"
proof (induction xs arbitrary: x f)
  case Nil
  show ?case by (simp add: adj_ne_simps adj_eq_simps compress_Cons compress_Nil)
next
  case (Cons y zs)
  have "adj_eq (f # adj_ne (x # y # zs) @ [True])
          = ((y \<noteq> x) = f) # adj_eq ((y \<noteq> x) # adj_ne (y # zs) @ [True])"
    by (simp only: adj_ne_simps adj_eq_simps append_Cons)
  then show ?case
    by (simp only: compress_Cons Cons.IH xorf.simps)
qed

lemma setxor1d_eq: "setxor1d a b = Some (xorf True (sort (a @ b)))"
proof (cases "a @ b = []")
  case True
  then show ?thesis by (simp add: setxor1d_def)
next
  case False
  let ?m = "sort (a @ b)"
  from False obtain x xs where m: "?m = x # xs"
    by (cases ?m) (auto dest: arg_cong [where f = length])
  have "length (adj_eq (setxor1d_flag ?m)) \<le> length ?m"
    by (simp add: length_adj_eq setxor1d_flag_def length_adj_ne m)
  from mask_index_compress [OF this]
  have "mask_index ?m (adj_eq (setxor1d_flag ?m)) = Some (xorf True ?m)"
    using xor_compress [of x xs True] by (simp add: m setxor1d_flag_def)
  moreover have "length (a @ b) \<noteq> 0" using False by simp
  ultimately show ?thesis
    by (simp only: setxor1d_def Let_def if_False bind.bind_lunit)
qed

lemma xor_length:
  assumes "\<And>v. count_list xs v \<le> 2" "xs \<noteq> []" "\<not> f \<Longrightarrow> count_list xs (hd xs) \<le> 1"
  shows "length (xorf f xs) + 2 * length (dups xs) + (if f then 0 else 1) = length xs"
  using assms
proof (induction f xs rule: xorf.induct)
  case (1 f)
  then show ?case by simp
next
  case (2 f x)
  then show ?case by simp
next
  case (3 f x y zs)
  have c: "count_list (y # zs) v \<le> 2" for v
    using "3.prems"(1) [of v] by (simp split: if_splits)
  show ?case
  proof (cases "y = x")
    case True
    have "count_list (y # zs) (hd (y # zs)) \<le> 1"
      using "3.prems"(1) [of x] True by simp
    with "3.IH" [OF c] True
    have ih: "length (xorf False (y # zs)) + 2 * length (dups (y # zs)) + 1 = length (y # zs)"
      by simp
    have f: f
    proof (rule ccontr)
      assume "\<not> f"
      from "3.prems"(3) [OF this] True show False by simp
    qed
    show ?thesis using ih True f by simp
  next
    case False
    with "3.IH" [OF c]
    have ih: "length (xorf True (y # zs)) + 2 * length (dups (y # zs)) = length (y # zs)"
      by simp
    show ?thesis using ih False by simp
  qed
qed

lemma count_concat_le_2:
  assumes "distinct a" "distinct b"
  shows "count_list (sort_key f (a @ b)) v \<le> 2"
  by (simp add: count_list_sort distinct_count_list [OF assms(1)] distinct_count_list [OF assms(2)])

lemma dups_concat_distinct:
  assumes "distinct a" "distinct b"
  shows "distinct (dups (sort (a @ b)))" "set (dups (sort (a @ b))) = set a \<inter> set b"
proof -
  have "count_list (dups (sort (a @ b))) v \<le> 1" for v
    using count_concat_le_2 [OF assms, of "\<lambda>x. x" v] by (simp add: count_dups)
  then show "distinct (dups (sort (a @ b)))" by (rule count_le_1_distinct)
  show "set (dups (sort (a @ b))) = set a \<inter> set b"
    by (auto simp: set_dups count_list_sort distinct_count_list [OF assms(1)]
        distinct_count_list [OF assms(2)] split: if_splits)
qed

lemma intersect1d_nu_distinct:
  assumes "distinct a" "distinct b"
  shows "intersect1d_nu a b = Some (dups (sort (a @ b)))"
proof -
  let ?u = "remdups_adj (sort a)" and ?v = "remdups_adj (sort b)"
  have d: "distinct ?u" "distinct ?v"
    using strict_sorted_remdups_adj [of "sort a"] strict_sorted_remdups_adj [of "sort b"]
    by (simp_all add: strict_sorted_iff)
  have "dups (sort (?u @ ?v)) = dups (sort (a @ b))"
  proof (rule sorted_distinct_set_unique)
    show "set (dups (sort (?u @ ?v))) = set (dups (sort (a @ b)))"
      by (simp add: dups_concat_distinct(2) [OF assms] dups_concat_distinct(2) [OF d])
  qed (simp_all add: sorted_dups dups_concat_distinct(1) [OF assms] dups_concat_distinct(1) [OF d])
  then show ?thesis by (simp add: intersect1d_nu_eq)
qed

text \<open>
  Claim C4. For all sequences \<open>a\<close> and \<open>b\<close> without duplicates, the length of
  \<open>setxor1d a b\<close> is \<open>len(a) + len(b) - 2 * len(intersect1d_nu a b)\<close>; the subtraction
  does not truncate, since the length of \<open>setxor1d a b\<close> plus twice the length of
  \<open>intersect1d_nu a b\<close> is \<open>len(a) + len(b)\<close>.
\<close>

theorem setxor1d_length:
  assumes "distinct a" "distinct b"
  shows "\<exists>x t. setxor1d a b = Some x \<and> intersect1d_nu a b = Some t
           \<and> length x + 2 * length t = length a + length b
           \<and> length x = length a + length b - 2 * length t"
proof -
  let ?m = "sort (a @ b)"
  have "length (xorf True ?m) + 2 * length (dups ?m) = length a + length b"
  proof (cases "a @ b = []")
    case True
    then show ?thesis by simp
  next
    case False
    then have "?m \<noteq> []" by (auto dest: arg_cong [where f = length])
    from xor_length [of ?m True, OF count_concat_le_2 [OF assms] this]
    show ?thesis by simp
  qed
  then show ?thesis
    by (simp add: setxor1d_eq intersect1d_nu_distinct [OF assms])
qed

theorem setxor1d_length_witness:
  "distinct [5, 1, 3 :: int] \<and> distinct [3, 4 :: int]
   \<and> (\<exists>x t. setxor1d [5, 1, 3 :: int] [3, 4] = Some x
         \<and> intersect1d_nu [5, 1, 3 :: int] [3, 4] = Some t
         \<and> x = [1, 4, 5] \<and> t = [3]
         \<and> length x + 2 * length t = length [5, 1, 3 :: int] + length [3, 4 :: int]
         \<and> length x = length [5, 1, 3 :: int] + length [3, 4 :: int] - 2 * length t)"
proof -
  have h: "distinct [5, 1, 3 :: int]" "distinct [3, 4 :: int]" by simp_all
  from setxor1d_length [OF h]
  obtain x t where r: "setxor1d [5, 1, 3 :: int] [3, 4] = Some x"
      "intersect1d_nu [5, 1, 3 :: int] [3, 4] = Some t"
      "length x + 2 * length t = length [5, 1, 3 :: int] + length [3, 4 :: int]"
      "length x = length [5, 1, 3 :: int] + length [3, 4 :: int] - 2 * length t"
    by blast
  have "setxor1d [5, 1, 3 :: int] [3, 4] = Some [1, 4, 5]"
      "intersect1d_nu [5, 1, 3 :: int] [3, 4] = Some [3]"
    by code_simp+
  with r(1,2) have "x = [1, 4, 5]" "t = [3]" by simp_all
  with h r show ?thesis by blast
qed

lemma adj_ne_nth: "Suc j < length xs \<Longrightarrow> adj_ne xs ! j = (xs ! Suc j \<noteq> xs ! j)"
  by (simp add: adj_ne_def nth_tl nth_butlast)

lemma length_spec_f: "length (spec_f m) = length m + 1"
  by (simp add: spec_f_def del: upt_Suc)

lemma spec_f_nth:
  "i < length m + 1 \<Longrightarrow> spec_f m ! i = (i = 0 \<or> i = length m \<or> m ! i \<noteq> m ! (i - 1))"
  unfolding spec_f_def by (subst nth_map) (simp_all del: upt_Suc)

lemma setxor1d_flag_spec:
  assumes "m \<noteq> []"
  shows "setxor1d_flag m = spec_f m"
proof (rule nth_equalityI)
  show l: "length (setxor1d_flag m) = length (spec_f m)"
    using assms by (simp add: setxor1d_flag_def length_spec_f length_adj_ne)
  fix i assume "i < length (setxor1d_flag m)"
  then have i: "i < length m + 1" using l by (simp add: length_spec_f)
  consider "i = 0" | "i = length m" | "0 < i" "i < length m" using i by linarith
  then show "setxor1d_flag m ! i = spec_f m ! i"
  proof cases
    case 1
    then show ?thesis by (simp add: setxor1d_flag_def spec_f_nth)
  next
    case 2
    then have "setxor1d_flag m ! i = (([True] @ adj_ne m) @ [True]) ! (length ([True] @ adj_ne m))"
      using assms by (simp add: setxor1d_flag_def length_adj_ne)
    also have "\<dots> = True"
      by (simp only: nth_append_length)
    finally show ?thesis using 2 by (simp add: spec_f_nth)
  next
    case 3
    then obtain j where j: "i = Suc j" by (cases i) auto
    with 3 have sj: "Suc j < length m" by simp
    then have jl: "j < length (adj_ne m)" by (simp add: length_adj_ne)
    have "setxor1d_flag m ! i = (adj_ne m @ [True]) ! j"
      by (simp add: setxor1d_flag_def j)
    also have "\<dots> = adj_ne m ! j"
      using jl by (simp only: nth_append if_True)
    finally have "setxor1d_flag m ! i = (m ! i \<noteq> m ! (i - 1))"
      using sj j by (simp add: adj_ne_nth)
    then show ?thesis using 3 by (simp add: spec_f_nth)
  qed
qed

lemma adj_eq_spec: "adj_eq f = spec_g f"
proof (rule nth_equalityI)
  show "length (adj_eq f) = length (spec_g f)"
    by (simp add: length_adj_eq spec_g_def)
  fix i assume "i < length (adj_eq f)"
  then have "Suc i < length f" by (simp add: length_adj_eq)
  then show "adj_eq f ! i = spec_g f ! i"
    by (auto simp: adj_eq_nth spec_g_def)
qed

lemma mask_index_positions:
  assumes "length msk \<le> length a"
  shows "mask_index a msk = Some (map ((!) a) (filter ((!) msk) [0..<length msk]))"
  using mask_index_compress [OF assms]
  by (simp add: mask_index_def take_idx_def nonzero_def split: if_splits)

text \<open>
  Claim C9, amended. \<open>setxor1d\<close> computes its result as the specification describes,
  with a flag sequence of length \<open>len(m) + 1\<close>: it returns \<open>setxor1d_spec a b\<close>, and
  for a non-empty concatenation its array \<open>flag\<close> is the sequence \<open>f\<close> of the
  specification, of length \<open>len(m) + 1\<close>, and its array \<open>flag2\<close> is the sequence \<open>g\<close>.
\<close>

theorem setxor1d_refines_spec:
  "setxor1d a b = Some (setxor1d_spec a b)
   \<and> (a @ b \<noteq> [] \<longrightarrow>
        setxor1d_flag (sort (a @ b)) = spec_f (sort (a @ b))
        \<and> length (setxor1d_flag (sort (a @ b))) = length (sort (a @ b)) + 1
        \<and> adj_eq (setxor1d_flag (sort (a @ b))) = spec_g (spec_f (sort (a @ b))))"
proof (cases "a @ b = []")
  case True
  then show ?thesis
    by (simp add: setxor1d_def setxor1d_spec_def spec_f_def spec_g_def)
next
  case False
  let ?m = "sort (a @ b)"
  from False have ne: "?m \<noteq> []" by (auto dest: arg_cong [where f = length])
  have f: "setxor1d_flag ?m = spec_f ?m" by (rule setxor1d_flag_spec [OF ne])
  have g: "adj_eq (setxor1d_flag ?m) = spec_g (spec_f ?m)"
    by (simp only: f adj_eq_spec)
  have "length (spec_g (spec_f ?m)) \<le> length ?m"
    by (simp add: spec_g_def length_spec_f)
  from mask_index_positions [OF this]
  have "mask_index ?m (adj_eq (setxor1d_flag ?m)) = Some (setxor1d_spec a b)"
    by (simp only: g setxor1d_spec_def Let_def)
  moreover have "length (a @ b) \<noteq> 0" using False by simp
  ultimately have "setxor1d a b = Some (setxor1d_spec a b)"
    by (simp only: setxor1d_def Let_def if_False bind.bind_lunit)
  then show ?thesis
    using f g by (simp add: length_spec_f)
qed

theorem setxor1d_refines_spec_witness:
  "setxor1d [1, 2, 3] [3, 4 :: int] = Some (setxor1d_spec [1, 2, 3] [3, 4 :: int])
   \<and> setxor1d_spec [1, 2, 3] [3, 4 :: int] = [1, 2, 4]
   \<and> [1, 2, 3] @ [3, 4 :: int] \<noteq> []
   \<and> setxor1d_flag (sort ([1, 2, 3] @ [3, 4 :: int])) = spec_f (sort ([1, 2, 3] @ [3, 4 :: int]))
   \<and> spec_f (sort ([1, 2, 3] @ [3, 4 :: int])) = [True, True, True, False, True, True]
   \<and> length (setxor1d_flag (sort ([1, 2, 3] @ [3, 4 :: int]))) = 6"
proof -
  have ne: "[1, 2, 3] @ [3, 4 :: int] \<noteq> []" by simp
  have "spec_f (sort ([1, 2, 3] @ [3, 4 :: int])) = [True, True, True, False, True, True]"
      "setxor1d_spec [1, 2, 3] [3, 4 :: int] = [1, 2, 4]"
    by code_simp+
  with ne setxor1d_refines_spec [of "[1, 2, 3]" "[3, 4 :: int]"] show ?thesis
    by simp
qed

text \<open>
  Claim C9 as first stated gives the flag sequence the length \<open>len(m) + 2\<close>. For
  \<open>a = [1]\<close> and \<open>b = [2]\<close> the sorted concatenation has two elements and the flag
  sequence of the code has three.
\<close>

theorem setxor1d_flag_length_counterexample:
  "setxor1d_flag (sort ([1 :: int] @ [2])) = [True, True, True]
   \<and> length (setxor1d_flag (sort ([1 :: int] @ [2]))) \<noteq> length (sort ([1 :: int] @ [2])) + 2"
  by (simp add: setxor1d_flag_def adj_ne_def)


section \<open>\<open>setmember1d\<close> and the algorithm of the specification\<close>

text \<open>
  The two assignments of the code write \<open>perm[i]\<close> to position \<open>i + 1\<close> and the old
  \<open>perm[i + 1]\<close> to position \<open>i\<close>, for every \<open>i\<close> of \<open>ii\<close>, with both right-hand sides
  read before any entry is written. Where no two positions of \<open>ii\<close> are adjacent this
  is the swap of the entries \<open>i\<close> and \<open>i + 1\<close>.
\<close>

lemma fold_swap_at:
  assumes "\<forall>i \<in> set sw. Suc i < n \<and> m \<le> perm ! i \<and> m \<le> perm ! Suc i"
    and "length p = n"
    and "\<forall>j < n. (perm ! j < m \<longrightarrow> p ! j = perm ! j) \<and> (m \<le> perm ! j \<longrightarrow> m \<le> p ! j)"
  shows "length (fold swap_at sw p) = n
    \<and> (\<forall>j < n. (perm ! j < m \<longrightarrow> fold swap_at sw p ! j = perm ! j)
              \<and> (m \<le> perm ! j \<longrightarrow> m \<le> fold swap_at sw p ! j))"
  using assms
proof (induction sw arbitrary: p)
  case Nil
  then show ?case by simp
next
  case (Cons i sw)
  from Cons.prems(1) have i: "Suc i < n" "m \<le> perm ! i" "m \<le> perm ! Suc i" by simp_all
  have l: "length (swap_at i p) = n" using Cons.prems(2) by (simp add: swap_at_def)
  have inv: "\<forall>j < n. (perm ! j < m \<longrightarrow> swap_at i p ! j = perm ! j)
                  \<and> (m \<le> perm ! j \<longrightarrow> m \<le> swap_at i p ! j)"
  proof (intro allI impI)
    fix j assume j: "j < n"
    have pi: "m \<le> p ! i" "m \<le> p ! Suc i"
      using Cons.prems(3) i by simp_all
    show "(perm ! j < m \<longrightarrow> swap_at i p ! j = perm ! j)
            \<and> (m \<le> perm ! j \<longrightarrow> m \<le> swap_at i p ! j)"
    proof (cases "j = i \<or> j = Suc i")
      case True
      then show ?thesis
        using i pi Cons.prems(2) by (auto simp: swap_at_def)
    next
      case False
      then have "swap_at i p ! j = p ! j" by (simp add: swap_at_def)
      then show ?thesis using Cons.prems(3) j by simp
    qed
  qed
  from Cons.IH [OF _ l inv] Cons.prems(1) show ?case by simp
qed

lemma nat_tag_nth:
  "k < length a + length b \<Longrightarrow>
     (replicate (length a) 0 @ replicate (length b) (1 :: nat)) ! k = 1 \<longleftrightarrow> length a \<le> k"
  by (simp add: nth_append)

lemma fold_upd_map_hit:
  assumes "distinct ii" "inj_on g (set ii)" "\<forall>i \<in> set ii. g i < length p" "i \<in> set ii"
  shows "fold (\<lambda>(i, v) p. p[i := v]) (map (\<lambda>i. (g i, h i)) ii) p ! g i = h i"
  using assms
proof (induction ii arbitrary: p)
  case Nil
  then show ?case by simp
next
  case (Cons k ks)
  let ?p = "p[g k := h k]"
  show ?case
  proof (cases "i = k")
    case True
    have "g k \<notin> fst ` set (map (\<lambda>i. (g i, h i)) ks)"
      using Cons.prems(1,2) by (auto simp: inj_on_def)
    from fold_upd_nth_notin [OF this, of ?p] Cons.prems(3) True show ?thesis by simp
  next
    case False
    with Cons.prems(4) have "i \<in> set ks" by simp
    moreover have "distinct ks" "inj_on g (set ks)" "\<forall>i \<in> set ks. g i < length ?p"
      using Cons.prems(1,2,3) by (simp_all add: inj_on_def)
    ultimately show ?thesis using Cons.IH [of ?p] by simp
  qed
qed

lemma put_map:
  assumes "distinct ii" "inj_on g (set ii)" "\<forall>i \<in> set ii. g i < length p"
  shows "\<exists>q. put p (map g ii) (map h ii) = Some q \<and> length q = length p
           \<and> (\<forall>i \<in> set ii. q ! g i = h i)
           \<and> (\<forall>j. j \<notin> g ` set ii \<longrightarrow> q ! j = p ! j)"
proof -
  let ?ivs = "map (\<lambda>i. (g i, h i)) ii"
  let ?q = "fold (\<lambda>(i, v) p. p[i := v]) ?ivs p"
  have z: "zip (map g ii) (map h ii) = ?ivs"
    by (simp add: zip_map_map zip_same_conv_map)
  have "list_all (\<lambda>i. i < length p) (map g ii)"
    using assms(3) by (simp add: list_all_iff)
  then have "put p (map g ii) (map h ii) = Some ?q"
    by (simp add: put_def z)
  moreover have "length ?q = length p" by (rule fold_upd_length)
  moreover have "\<forall>i \<in> set ii. ?q ! g i = h i"
    using fold_upd_map_hit [OF assms(1,2,3)] by blast
  moreover have "\<forall>j. j \<notin> g ` set ii \<longrightarrow> ?q ! j = p ! j"
  proof (intro allI impI)
    fix j assume "j \<notin> g ` set ii"
    then have "j \<notin> fst ` set ?ivs" by (simp add: image_image)
    then show "?q ! j = p ! j" by (rule fold_upd_nth_notin)
  qed
  ultimately show ?thesis by blast
qed

lemma fold_swap_nth:
  assumes "distinct sw" "\<forall>i \<in> set sw. Suc i \<notin> set sw" "\<forall>i \<in> set sw. Suc i < length p"
  shows "fold swap_at sw p ! j =
           (if j \<in> set sw then p ! Suc j
            else if 0 < j \<and> j - 1 \<in> set sw then p ! (j - 1) else p ! j)"
  using assms
proof (induction sw arbitrary: p)
  case Nil
  then show ?case by simp
next
  case (Cons k ks)
  let ?p = "swap_at k p"
  have l: "length ?p = length p" by (simp add: swap_at_def)
  have k: "Suc k < length p" "k \<notin> set ks" "Suc k \<notin> set ks"
    using Cons.prems by auto
  have k': "\<forall>i \<in> set ks. Suc i \<noteq> k" using Cons.prems(2) by auto
  have ih: "fold swap_at ks ?p ! j =
           (if j \<in> set ks then ?p ! Suc j
            else if 0 < j \<and> j - 1 \<in> set ks then ?p ! (j - 1) else ?p ! j)"
    by (rule Cons.IH) (use Cons.prems l in auto)
  have pk: "?p ! k = p ! Suc k" "?p ! Suc k = p ! k"
    using k(1) by (simp_all add: swap_at_def)
  have po: "?p ! x = p ! x" if "x \<noteq> k" "x \<noteq> Suc k" for x
    using that by (simp add: swap_at_def)
  consider "j = k" | "j = Suc k" | "j \<noteq> k" "j \<noteq> Suc k" by blast
  then show ?case
  proof cases
    case 1
    have "\<not> (0 < k \<and> k - 1 \<in> set ks)" using k' by (cases k) auto
    with 1 k ih pk show ?thesis by auto
  next
    case 2
    with k ih pk show ?thesis by auto
  next
    case 3
    show ?thesis
    proof (cases "j \<in> set ks")
      case True
      then have "Suc j \<noteq> k" "Suc j \<noteq> Suc k" using k k' by auto
      with True ih po show ?thesis by simp
    next
      case False
      show ?thesis
      proof (cases "0 < j \<and> j - 1 \<in> set ks")
        case True
        then have "j - 1 \<noteq> k" "j - 1 \<noteq> Suc k" using k by auto
        with True False 3 ih po show ?thesis by auto
      next
        case False2: False
        have "\<not> (0 < j \<and> j - 1 = k)" using 3 by auto
        with False False2 3 ih po show ?thesis by auto
      qed
    qed
  qed
qed

lemma spec_flagged_succ_eq: "spec_flagged c j = succ_eq c j"
  by (auto simp: spec_flagged_def succ_eq_def Let_def length_argsort)

lemma spec_swaps_set:
  "i \<in> set (spec_swaps 1 a b) \<longleftrightarrow>
     i < length (a @ b) \<and> succ_eq (a @ b) i \<and> length a \<le> argsort (a @ b) ! i"
proof (cases "i < length (a @ b)")
  case True
  have "argsort (a @ b) ! i < length a + length b"
    using ssort_nth(1) [OF True] by simp
  from nat_tag_nth [OF this] True show ?thesis
    by (simp add: spec_swaps_def Let_def spec_flagged_succ_eq)
next
  case False
  then show ?thesis by (simp add: spec_swaps_def Let_def)
qed

lemma setmember1d_ii_spec_swaps:
  fixes a b :: "'a::linorder list"
  shows "setmember1d_ii a b = Some (spec_swaps 1 a b)"
proof -
  let ?c = "a @ b"
  let ?tt = "replicate (length a) (0 :: 8 word) @ replicate (length b) 1"
  let ?perm = "argsort ?c"
  let ?aux = "map ((!) ?c) ?perm"
  let ?aux2 = "map ((!) ?tt) ?perm"
  let ?flag = "adj_eq ?aux @ [False]"
  define ii where "ii = nonzero (map2 (\<lambda>f t. of_bool f * t \<noteq> 0) ?flag ?aux2)"
  have sp: "set ?perm = {0..<length ?c}" by (rule set_argsort)
  have s1: "take_idx ?c ?perm = Some ?aux"
    by (rule take_idx_Some) (simp add: list_all_iff sp)
  have s2: "take_idx ?tt ?perm = Some ?aux2"
    by (rule take_idx_Some) (simp add: list_all_iff sp)
  have e: "setmember1d_ii a b = Some ii"
    unfolding setmember1d_ii_def Let_def ii_def
    by (simp only: s1 s2 bind.bind_lunit)
  have "ii = spec_swaps 1 a b"
  proof (rule sorted_distinct_set_unique)
    show "sorted ii" unfolding ii_def nonzero_def by (rule sorted_wrt_filter) simp
    show "distinct ii" by (simp add: ii_def nonzero_def)
    show "sorted (spec_swaps 1 a b)"
      unfolding spec_swaps_def Let_def by (rule sorted_wrt_filter) simp
    show "distinct (spec_swaps 1 a b)" by (simp add: spec_swaps_def Let_def)
    have "j \<in> set ii \<longleftrightarrow> j \<in> set (spec_swaps 1 a b)" for j
      unfolding ii_def spec_swaps_set by (rule swap_positions)
    then show "set ii = set (spec_swaps 1 a b)" by blast
  qed
  with e show ?thesis by simp
qed

lemma spec_swaps_props:
  "distinct (spec_swaps t a b)"
  "i \<in> set (spec_swaps 1 a b) \<Longrightarrow>
     Suc i < length (a @ b) \<and> length a \<le> argsort (a @ b) ! i
     \<and> length a \<le> argsort (a @ b) ! Suc i"
proof -
  show "distinct (spec_swaps t a b)" by (simp add: spec_swaps_def Let_def)
  assume "i \<in> set (spec_swaps 1 a b)"
  then have i: "i < length (a @ b)" "succ_eq (a @ b) i" "length a \<le> argsort (a @ b) ! i"
    by (simp_all only: spec_swaps_set)
  from swap_positions_high [OF i] i(3)
  show "Suc i < length (a @ b) \<and> length a \<le> argsort (a @ b) ! i
     \<and> length a \<le> argsort (a @ b) ! Suc i" by simp
qed

lemma setmember1d_perm_eq:
  fixes a b :: "'a::linorder list"
  shows "\<exists>perm2. setmember1d_perm a b = Some perm2
     \<and> length perm2 = length (a @ b)
     \<and> (\<forall>j. perm2 ! j =
            (if j \<in> set (spec_swaps 1 a b) then argsort (a @ b) ! Suc j
             else if 0 < j \<and> j - 1 \<in> set (spec_swaps 1 a b) then argsort (a @ b) ! (j - 1)
             else argsort (a @ b) ! j))
     \<and> setmember1d a b =
           take_idx (adj_eq (sort (a @ b)) @ [False]) (take (length a) (argsort perm2))"
proof -
  let ?c = "a @ b"
  let ?n = "length ?c"
  let ?tt = "replicate (length a) (0 :: 8 word) @ replicate (length b) 1"
  let ?perm = "argsort ?c"
  let ?aux = "map ((!) ?c) ?perm"
  let ?aux2 = "map ((!) ?tt) ?perm"
  let ?flag = "adj_eq ?aux @ [False]"
  let ?ii = "nonzero (map2 (\<lambda>f t. of_bool f * t \<noteq> 0) ?flag ?aux2)"
  define ii where "ii = spec_swaps 1 a b"
  have lp: "length ?perm = ?n" by (rule length_argsort)
  have sp: "set ?perm = {0..<?n}" by (rule set_argsort)
  have s1: "take_idx ?c ?perm = Some ?aux"
    by (rule take_idx_Some) (simp add: list_all_iff sp)
  have s2: "take_idx ?tt ?perm = Some ?aux2"
    by (rule take_idx_Some) (simp add: list_all_iff sp)
  have "setmember1d_ii a b = Some ?ii"
    unfolding setmember1d_ii_def Let_def by (simp only: s1 s2 bind.bind_lunit)
  then have iieq: "?ii = ii"
    by (simp only: setmember1d_ii_spec_swaps ii_def option.inject)
  have d: "distinct ii" unfolding ii_def by (rule spec_swaps_props(1))
  have ii_lt: "j < ?n" "Suc j < ?n" if "j \<in> set ii" for j
    using spec_swaps_props(2) [of j a b] that by (simp_all add: ii_def)
  have s3: "take_idx ?perm (map Suc ii) = Some (map (\<lambda>i. ?perm ! Suc i) ii)"
    using take_idx_Some [of ?perm "map Suc ii"] ii_lt lp
    by (simp add: list_all_iff o_def)
  have s4: "take_idx ?perm ii = Some (map ((!) ?perm) ii)"
    by (rule take_idx_Some) (use ii_lt lp in \<open>auto simp: list_all_iff\<close>)
  have "\<forall>i \<in> set ii. Suc i < length ?perm" using ii_lt lp by simp
  from put_map [OF d _ this, of "(!) ?perm"]
  obtain perm1 where p1: "put ?perm (map Suc ii) (map ((!) ?perm) ii) = Some perm1"
    and l1: "length perm1 = ?n"
    and h1: "\<And>i. i \<in> set ii \<Longrightarrow> perm1 ! Suc i = ?perm ! i"
    and u1: "\<And>j. j \<notin> Suc ` set ii \<Longrightarrow> perm1 ! j = ?perm ! j"
    using lp by auto
  have "\<forall>i \<in> set ii. (\<lambda>i. i) i < length perm1" using ii_lt l1 by simp
  from put_map [OF d _ this, of "\<lambda>i. ?perm ! Suc i"]
  obtain perm2 where p2: "put perm1 ii (map (\<lambda>i. ?perm ! Suc i) ii) = Some perm2"
    and l2: "length perm2 = ?n"
    and h2: "\<And>i. i \<in> set ii \<Longrightarrow> perm2 ! i = ?perm ! Suc i"
    and u2: "\<And>j. j \<notin> set ii \<Longrightarrow> perm2 ! j = perm1 ! j"
    using l1 by auto
  have e: "setmember1d_perm a b = Some perm2"
    unfolding setmember1d_perm_def Let_def
    by (simp only: s1 s2 iieq s3 s4 p1 p2 bind.bind_lunit)
  have v: "perm2 ! j =
            (if j \<in> set ii then ?perm ! Suc j
             else if 0 < j \<and> j - 1 \<in> set ii then ?perm ! (j - 1)
             else ?perm ! j)" for j
  proof (cases "j \<in> set ii")
    case True
    then show ?thesis by (simp add: h2)
  next
    case False
    show ?thesis
    proof (cases "0 < j \<and> j - 1 \<in> set ii")
      case True
      then obtain i where i: "j = Suc i" "i \<in> set ii" by (cases j) auto
      from h1 [OF i(2)] i False u2 [of j] show ?thesis by simp
    next
      case F2: False
      then have "j \<notin> Suc ` set ii" by auto
      with False F2 u1 [of j] u2 [of j] show ?thesis by auto
    qed
  qed
  have "setmember1d a b = take_idx ?flag (take (length a) (argsort perm2))"
    unfolding setmember1d_def Let_def
    by (simp only: s1 s2 iieq s3 s4 p1 p2 bind.bind_lunit)
  then have r: "setmember1d a b =
      take_idx (adj_eq (sort ?c) @ [False]) (take (length a) (argsort perm2))"
    by (simp only: argsort_values)
  from e l2 v r show ?thesis unfolding ii_def by blast
qed

lemma setmember1d_spec_eq:
  fixes a b :: "'a::linorder list"
  shows "setmember1d_spec 1 a b =
    map (\<lambda>i. succ_eq (a @ b) (first_index (argsort (a @ b)) i)) [0..<length a]"
proof -
  let ?c = "a @ b"
  let ?n = "length ?c"
  let ?m = "length a"
  let ?perm = "argsort ?c"
  define q where "q = spec_perm 1 a b"
  have lp: "length ?perm = ?n" by (rule length_argsort)
  have dp: "distinct ?perm" by (rule distinct_argsort)
  have sw_ok: "\<forall>i \<in> set (spec_swaps 1 a b).
      Suc i < ?n \<and> ?m \<le> ?perm ! i \<and> ?m \<le> ?perm ! Suc i"
    using spec_swaps_props(2) [of _ a b] by blast
  have "\<forall>j < ?n. (?perm ! j < ?m \<longrightarrow> ?perm ! j = ?perm ! j) \<and> (?m \<le> ?perm ! j \<longrightarrow> ?m \<le> ?perm ! j)"
    by simp
  from fold_swap_at [OF sw_ok lp this]
  have lq: "length q = ?n"
    and same: "\<And>j. j < ?n \<Longrightarrow> ?perm ! j < ?m \<Longrightarrow> q ! j = ?perm ! j"
    and high: "\<And>j. j < ?n \<Longrightarrow> ?m \<le> ?perm ! j \<Longrightarrow> ?m \<le> q ! j"
    unfolding q_def spec_perm_def by blast+
  have pos: "first_index q i = first_index ?perm i" if i: "i < ?m" for i
  proof -
    let ?j = "first_index ?perm i"
    from i have "i < ?n" by simp
    note j = argsort_position [OF this]
    have qj: "q ! ?j = i" using same [OF j(1)] j(2) i by simp
    have "\<forall>k < ?j. q ! k \<noteq> q ! ?j"
    proof (intro allI impI)
      fix k assume k: "k < ?j"
      then have kn: "k < ?n" using j(1) by simp
      show "q ! k \<noteq> q ! ?j"
      proof (cases "?perm ! k < ?m")
        case True
        have "?perm ! k \<noteq> ?perm ! ?j"
          using dp k kn j(1) lp by (simp add: nth_eq_iff_index_eq)
        then show ?thesis using same [OF kn True] qj j(2) by simp
      next
        case False
        then have "?m \<le> q ! k" using high [OF kn] by simp
        then show ?thesis using qj i by simp
      qed
    qed
    from first_index_nth [OF _ this] j(1) lq qj show ?thesis by simp
  qed
  have "take ?m (invert_perm q) = map (first_index q) [0..<?m]"
    by (simp add: invert_perm_def take_map lq)
  also have "\<dots> = map (first_index ?perm) [0..<?m]"
    using pos by simp
  finally have "map (spec_flagged ?c) (take ?m (invert_perm q))
                  = map (spec_flagged ?c) (map (first_index ?perm) [0..<?m])"
    by (rule arg_cong)
  also have "\<dots> = map (\<lambda>i. succ_eq ?c (first_index ?perm i)) [0..<?m]"
    by (simp only: spec_flagged_succ_eq map_map o_def)
  finally show ?thesis
    unfolding setmember1d_spec_def q_def .
qed

lemma spec_swaps_distinct_b:
  fixes a b :: "'a::linorder list"
  assumes "distinct b"
  shows "spec_swaps 1 a b = []"
proof (rule ccontr)
  let ?c = "a @ b"
  let ?perm = "argsort ?c"
  assume "spec_swaps 1 a b \<noteq> []"
  then obtain i where "i \<in> set (spec_swaps 1 a b)" by (cases "spec_swaps 1 a b") auto
  then have i: "i < length ?c" "succ_eq ?c i" "length a \<le> ?perm ! i"
    by (simp_all only: spec_swaps_set)
  from i(2) have s: "Suc i < length ?c" and e: "?c ! (?perm ! Suc i) = ?c ! (?perm ! i)"
    by (simp_all add: succ_eq_def)
  have lt: "?perm ! i < ?perm ! Suc i"
    by (rule argsort_stable [OF _ s]) (simp_all add: e)
  have b: "?perm ! Suc i < length ?c" by (rule ssort_nth(1) [OF s])
  let ?k = "?perm ! i - length a" and ?l = "?perm ! Suc i - length a"
  have "b ! ?k = b ! ?l" "?k < length b" "?l < length b" "?k \<noteq> ?l"
    using e i(3) lt b by (simp_all add: nth_append)
  with assms show False by (simp add: nth_eq_iff_index_eq)
qed

lemma length_fold_swap_at: "length (fold swap_at sw p) = length p"
  by (induction sw arbitrary: p) (simp_all add: swap_at_def)

text \<open>
  Claim C8, amended. \<open>setmember1d\<close> follows the algorithm of the specification with
  the origin tag 1 in the place of 0. After the stable sort and the flagging, the
  positions \<open>ii\<close> at which it assigns are exactly the flagged positions whose tag is 1
  (an element of \<open>b\<close> followed by an equal element). Its two assignments put the old
  entry \<open>i + 1\<close> of the sort permutation at every such position \<open>i\<close> and the old entry
  \<open>i\<close> at every position \<open>i + 1\<close> that is not itself in \<open>ii\<close>; where no two
  of these positions are adjacent, that is the swap of the entries \<open>i\<close> and \<open>i + 1\<close>, and
  the permutation of the code is the fixed-up permutation of the described algorithm
  (with tag 1). When \<open>b\<close> has no duplicates there is no such position and the
  permutation is left as it is. The result of the code is the flags indexed by the
  first \<open>len(a)\<close> entries of the \<open>argsort\<close> of that array, and the function as a whole
  equals the described algorithm with the swap at tag 1.
\<close>

theorem setmember1d_refines_spec:
  fixes a b :: "'a::linorder list"
  shows "\<exists>perm2.
      setmember1d_ii a b = Some (spec_swaps 1 a b)
    \<and> setmember1d_perm a b = Some perm2
    \<and> length perm2 = length (a @ b)
    \<and> (\<forall>j < length (a @ b). perm2 ! j =
          (if j \<in> set (spec_swaps 1 a b) then argsort (a @ b) ! Suc j
           else if 0 < j \<and> j - 1 \<in> set (spec_swaps 1 a b) then argsort (a @ b) ! (j - 1)
           else argsort (a @ b) ! j))
    \<and> ((\<forall>i \<in> set (spec_swaps 1 a b). Suc i \<notin> set (spec_swaps 1 a b))
          \<longrightarrow> perm2 = spec_perm 1 a b)
    \<and> (distinct b \<longrightarrow> spec_swaps 1 a b = [] \<and> perm2 = argsort (a @ b))
    \<and> setmember1d a b =
          take_idx (adj_eq (sort (a @ b)) @ [False]) (take (length a) (argsort perm2))
    \<and> setmember1d a b = Some (setmember1d_spec 1 a b)"
proof -
  let ?sw = "spec_swaps 1 a b"
  let ?perm = "argsort (a @ b)"
  from setmember1d_perm_eq [of a b]
  obtain perm2 where e: "setmember1d_perm a b = Some perm2"
    and l: "length perm2 = length (a @ b)"
    and v: "\<And>j. perm2 ! j =
            (if j \<in> set ?sw then ?perm ! Suc j
             else if 0 < j \<and> j - 1 \<in> set ?sw then ?perm ! (j - 1)
             else ?perm ! j)"
    and r: "setmember1d a b =
           take_idx (adj_eq (sort (a @ b)) @ [False]) (take (length a) (argsort perm2))"
    by blast
  have sw: "perm2 = spec_perm 1 a b" if n: "\<forall>i \<in> set ?sw. Suc i \<notin> set ?sw"
  proof (rule nth_equalityI)
    have b: "\<forall>i \<in> set ?sw. Suc i < length ?perm"
      using spec_swaps_props(2) [of _ a b] by (simp add: length_argsort)
    have f: "fold swap_at ?sw ?perm ! j =
           (if j \<in> set ?sw then ?perm ! Suc j
            else if 0 < j \<and> j - 1 \<in> set ?sw then ?perm ! (j - 1) else ?perm ! j)" for j
      by (rule fold_swap_nth [OF spec_swaps_props(1) n b])
    show "perm2 ! j = spec_perm 1 a b ! j" for j
      by (simp only: v f spec_perm_def)
    have "length (fold swap_at ?sw ?perm) = length ?perm"
      by (rule length_fold_swap_at)
    then show "length perm2 = length (spec_perm 1 a b)"
      by (simp add: l spec_perm_def length_argsort)
  qed
  have d: "?sw = [] \<and> perm2 = ?perm" if "distinct b"
  proof -
    have s: "?sw = []" by (rule spec_swaps_distinct_b [OF that])
    have "perm2 ! j = ?perm ! j" for j
      using v [of j] unfolding s by simp
    then have "perm2 = ?perm"
      by (intro nth_equalityI) (simp_all add: l length_argsort)
    with s show ?thesis by simp
  qed
  have m: "setmember1d a b = Some (setmember1d_spec 1 a b)"
    by (simp only: setmember1d_eq setmember1d_spec_eq)
  from setmember1d_ii_spec_swaps [of a b] e l v sw d r m show ?thesis by blast
qed

theorem setmember1d_refines_spec_witness:
  "spec_swaps 1 [1, 5, 2 :: int] [2, 2, 5, 5] = [2, 5]
   \<and> Suc 2 \<notin> set (spec_swaps 1 [1, 5, 2 :: int] [2, 2, 5, 5])
   \<and> Suc 5 \<notin> set (spec_swaps 1 [1, 5, 2 :: int] [2, 2, 5, 5])
   \<and> setmember1d_ii [1, 5, 2 :: int] [2, 2, 5, 5] = Some [2, 5]
   \<and> argsort ([1, 5, 2 :: int] @ [2, 2, 5, 5]) = [0, 2, 3, 4, 1, 5, 6]
   \<and> setmember1d_perm [1, 5, 2 :: int] [2, 2, 5, 5] = Some [0, 2, 4, 3, 1, 6, 5]
   \<and> spec_perm 1 [1, 5, 2 :: int] [2, 2, 5, 5] = [0, 2, 4, 3, 1, 6, 5]
   \<and> setmember1d [1, 5, 2 :: int] [2, 2, 5, 5] = Some (setmember1d_spec 1 [1, 5, 2 :: int] [2, 2, 5, 5])
   \<and> setmember1d_spec 1 [1, 5, 2 :: int] [2, 2, 5, 5] = [False, True, True]
   \<and> distinct [2, 5 :: int]
   \<and> setmember1d_ii [1, 5, 2 :: int] [2, 5] = Some []
   \<and> setmember1d_perm [1, 5, 2 :: int] [2, 5] = Some (argsort ([1, 5, 2 :: int] @ [2, 5]))"
proof -
  let ?a = "[1, 5, 2 :: int]" and ?b = "[2, 2, 5, 5 :: int]" and ?b' = "[2, 5 :: int]"
  have sw: "spec_swaps 1 ?a ?b = [2, 5]"
    and sp: "spec_perm 1 ?a ?b = [0, 2, 4, 3, 1, 6, 5]"
    and pm: "argsort (?a @ ?b) = [0, 2, 3, 4, 1, 5, 6]"
    and ms: "setmember1d_spec 1 ?a ?b = [False, True, True]"
    by code_simp+
  have n: "\<forall>i \<in> set (spec_swaps 1 ?a ?b). Suc i \<notin> set (spec_swaps 1 ?a ?b)"
    unfolding sw by simp
  from setmember1d_refines_spec [of ?a ?b]
  obtain perm2 where r: "setmember1d_ii ?a ?b = Some (spec_swaps 1 ?a ?b)"
      "setmember1d_perm ?a ?b = Some perm2"
      "(\<forall>i \<in> set (spec_swaps 1 ?a ?b). Suc i \<notin> set (spec_swaps 1 ?a ?b))
          \<longrightarrow> perm2 = spec_perm 1 ?a ?b"
      "setmember1d ?a ?b = Some (setmember1d_spec 1 ?a ?b)"
    by blast
  from r(3) n have p: "perm2 = spec_perm 1 ?a ?b" by blast
  have d: "distinct ?b'" by simp
  from setmember1d_refines_spec [of ?a ?b']
  obtain perm2' where r': "setmember1d_ii ?a ?b' = Some (spec_swaps 1 ?a ?b')"
      "setmember1d_perm ?a ?b' = Some perm2'"
      "distinct ?b' \<longrightarrow> spec_swaps 1 ?a ?b' = [] \<and> perm2' = argsort (?a @ ?b')"
    by blast
  from r'(3) d have p': "spec_swaps 1 ?a ?b' = []" "perm2' = argsort (?a @ ?b')" by blast+
  have "Suc 2 \<notin> set (spec_swaps 1 ?a ?b)" "Suc 5 \<notin> set (spec_swaps 1 ?a ?b)"
    unfolding sw by simp_all
  with sw sp pm ms r(1,2,4) p r'(1,2) p' d show ?thesis
    by (simp only: simp_thms)
qed

text \<open>
  Claim C8 as first stated swaps at the flagged positions with tag 0. For \<open>a = [1]\<close>
  and \<open>b = [1]\<close> position 0 of the sorted order is flagged and has tag 0; the code
  assigns nowhere and returns \<open>[True]\<close>, while the algorithm with the swap at tag 0
  returns \<open>[False]\<close>. For \<open>a = [1, 5, 2]\<close> and \<open>b = [2, 2, 2, 5, 5]\<close> two of the
  positions of the code are adjacent, and the array of the code after the assignments
  is neither the permutation swapped at tag 1 nor the one swapped at tag 0.
\<close>

theorem setmember1d_tag0_counterexample:
  "setmember1d [1 :: int] [1] = Some [True]
   \<and> setmember1d_spec 0 [1 :: int] [1] = [False]
   \<and> spec_swaps 0 [1 :: int] [1] = [0]
   \<and> setmember1d_ii [1 :: int] [1] = Some []
   \<and> setmember1d_perm [1, 5, 2 :: int] [2, 2, 2, 5, 5] = Some [0, 2, 4, 5, 4, 1, 7, 6]
   \<and> spec_perm 1 [1, 5, 2 :: int] [2, 2, 2, 5, 5] = [0, 2, 4, 5, 3, 1, 7, 6]
   \<and> spec_perm 0 [1, 5, 2 :: int] [2, 2, 2, 5, 5] = [0, 3, 2, 4, 5, 6, 1, 7]"
proof -
  have "setmember1d [1 :: int] [1] = Some [True]"
      "setmember1d_spec 0 [1 :: int] [1] = [False]"
      "spec_swaps 0 [1 :: int] [1] = [0]"
      "setmember1d_ii [1 :: int] [1] = Some []"
      "setmember1d_perm [1, 5, 2 :: int] [2, 2, 2, 5, 5] = Some [0, 2, 4, 5, 4, 1, 7, 6]"
      "spec_perm 1 [1, 5, 2 :: int] [2, 2, 2, 5, 5] = [0, 2, 4, 5, 3, 1, 7, 6]"
      "spec_perm 0 [1, 5, 2 :: int] [2, 2, 2, 5, 5] = [0, 3, 2, 4, 5, 6, 1, 7]"
    by code_simp+
  then show ?thesis by (simp only: simp_thms)
qed

end
